theory Spec2Isabelle
  imports Main
begin

section \<open>Text and character classes\<close>

text \<open>
  The program works on Python \<open>str\<close> values. A text is modelled as a \<open>string\<close>, each
  \<open>char\<close> standing for the code point of the same number (0 to 255). The character
  classes below are the ones of Python 3 on that range: \<open>\s\<close> of \<open>re\<close> and
  \<open>str.strip()\<close>/\<open>str.split()\<close> share one whitespace set, \<open>\w\<close> is
  \<open>str.isalnum()\<close> plus the underscore, \<open>str.splitlines()\<close> has its own set of
  line boundaries.
\<close>

definition nl :: char where
  "nl = CHR 0x0A"

definition is_space :: "char \<Rightarrow> bool" where
  "is_space c = (c \<in> set [CHR 0x09, CHR 0x0A, CHR 0x0B, CHR 0x0C, CHR 0x0D,
     CHR 0x1C, CHR 0x1D, CHR 0x1E, CHR 0x1F, CHR 0x20, CHR 0x85, CHR 0xA0])"

definition is_upper_az :: "char \<Rightarrow> bool" where
  "is_upper_az c = (let n = (of_char c :: nat) in 65 \<le> n \<and> n \<le> 90)"

definition is_lower_az :: "char \<Rightarrow> bool" where
  "is_lower_az c = (let n = (of_char c :: nat) in 97 \<le> n \<and> n \<le> 122)"

definition is_digit09 :: "char \<Rightarrow> bool" where
  "is_digit09 c = (let n = (of_char c :: nat) in 48 \<le> n \<and> n \<le> 57)"

text \<open>The class \<open>[A-Za-z_]\<close>.\<close>

definition is_ident_start :: "char \<Rightarrow> bool" where
  "is_ident_start c = (is_upper_az c \<or> is_lower_az c \<or> c = CHR ''_'')"

text \<open>The class \<open>\w\<close> of a \<open>str\<close> pattern, on the code points below 256.\<close>

definition is_word :: "char \<Rightarrow> bool" where
  "is_word c = (is_ident_start c \<or> is_digit09 c \<or>
     (let n = (of_char c :: nat) in
        n \<in> set [170, 178, 179, 181, 185, 186, 188, 189, 190] \<or>
        (192 \<le> n \<and> n \<le> 214) \<or> (216 \<le> n \<and> n \<le> 246) \<or> 248 \<le> n))"

text \<open>The class \<open>[\w \*\(\)]\<close> of the return-type group.\<close>

definition is_ret_char :: "char \<Rightarrow> bool" where
  "is_ret_char c = (is_word c \<or> c \<in> set [CHR '' '', CHR ''*'', CHR ''('', CHR '')''])"

text \<open>The dot: any character with \<open>re.S\<close>, any character but the newline without.\<close>

definition any_char :: "char \<Rightarrow> bool" where
  "any_char c = True"

definition not_nl :: "char \<Rightarrow> bool" where
  "not_nl c = (c \<noteq> nl)"

definition lit :: "char \<Rightarrow> char \<Rightarrow> bool" where
  "lit a c = (c = a)"

text \<open>\<open>str.lower()\<close> on the code points below 256.\<close>

definition lower_char :: "char \<Rightarrow> char" where
  "lower_char c = (let n = (of_char c :: nat) in
     if (65 \<le> n \<and> n \<le> 90) \<or> (192 \<le> n \<and> n \<le> 222 \<and> n \<noteq> 215)
     then char_of (n + 32) else c)"

definition lower :: "string \<Rightarrow> string" where
  "lower s = map lower_char s"

text \<open>\<open>str.strip()\<close> and \<open>str.strip(',')\<close>.\<close>

definition strip_with :: "(char \<Rightarrow> bool) \<Rightarrow> string \<Rightarrow> string" where
  "strip_with p s = rev (dropWhile p (rev (dropWhile p s)))"

definition strip :: "string \<Rightarrow> string" where
  "strip s = strip_with is_space s"

definition strip_commas :: "string \<Rightarrow> string" where
  "strip_commas s = strip_with (lit CHR '','') s"

text \<open>\<open>str.split(sep)\<close> for a one-character separator: never an empty list.\<close>

fun split_char :: "char \<Rightarrow> string \<Rightarrow> string list" where
  "split_char sep [] = [[]]"
| "split_char sep (c # cs) =
     (if c = sep then [] # split_char sep cs
      else (case split_char sep cs of
              [] \<Rightarrow> [[c]]
            | w # ws \<Rightarrow> (c # w) # ws))"

text \<open>\<open>s.split(sep)[0]\<close>.\<close>

definition first_field :: "char \<Rightarrow> string \<Rightarrow> string" where
  "first_field sep s = (case split_char sep s of [] \<Rightarrow> [] | w # ws \<Rightarrow> w)"

text \<open>
  \<open>s.rsplit(' ', 1)\<close>: one part when \<open>s\<close> has no space, otherwise the text before
  the last space and the text after it.
\<close>

definition rsplit1 :: "string \<Rightarrow> string list" where
  "rsplit1 s =
     (if CHR '' '' \<in> set s
      then [rev (tl (dropWhile (\<lambda>c. c \<noteq> CHR '' '') (rev s))),
            rev (takeWhile (\<lambda>c. c \<noteq> CHR '' '') (rev s))]
      else [s])"

text \<open>\<open>s.split()\<close>: the maximal runs of non-whitespace characters.\<close>

fun split_ws_aux :: "string \<Rightarrow> string \<Rightarrow> string list" where
  "split_ws_aux cur [] = (if cur = [] then [] else [rev cur])"
| "split_ws_aux cur (c # cs) =
     (if is_space c then (if cur = [] then split_ws_aux [] cs else rev cur # split_ws_aux [] cs)
      else split_ws_aux (c # cur) cs)"

definition split_ws :: "string \<Rightarrow> string list" where
  "split_ws s = split_ws_aux [] s"

text \<open>\<open>sep.join(xs)\<close>.\<close>

fun join :: "string \<Rightarrow> string list \<Rightarrow> string" where
  "join sep [] = []"
| "join sep [x] = x"
| "join sep (x # y # ys) = x @ sep @ join sep (y # ys)"

text \<open>
  \<open>str.splitlines()\<close>: the line boundaries are \<open>\n\<close>, \<open>\r\<close>, \<open>\r\n\<close>, \<open>\v\<close>,
  \<open>\f\<close>, \<open>\x1c\<close>, \<open>\x1d\<close>, \<open>\x1e\<close> and \<open>\x85\<close>; no empty last line after a
  final boundary.
\<close>

definition is_linebreak :: "char \<Rightarrow> bool" where
  "is_linebreak c = (c \<in> set [CHR 0x0A, CHR 0x0B, CHR 0x0C, CHR 0x0D,
     CHR 0x1C, CHR 0x1D, CHR 0x1E, CHR 0x85])"

fun splitlines_aux :: "string \<Rightarrow> string \<Rightarrow> string list" where
  "splitlines_aux cur [] = (if cur = [] then [] else [rev cur])"
| "splitlines_aux cur (c # cs) =
     (if is_linebreak c
      then rev cur # (case cs of
                        d # ds \<Rightarrow> if c = CHR 0x0D \<and> d = CHR 0x0A then splitlines_aux [] ds
                                 else splitlines_aux [] cs
                      | [] \<Rightarrow> splitlines_aux [] cs)
      else splitlines_aux (c # cur) cs)"

definition splitlines :: "string \<Rightarrow> string list" where
  "splitlines s = splitlines_aux [] s"

text \<open>\<open>str(n)\<close> for a length, as the f-strings of the comments render it.\<close>

fun str_nat :: "nat \<Rightarrow> string" where
  "str_nat n = (if n < 10 then [char_of (48 + n)] else str_nat (n div 10) @ [char_of (48 + n mod 10)])"

section \<open>The regular expressions of the program\<close>

text \<open>
  Python's \<open>re\<close> is a backtracking matcher: alternatives are tried in priority order and
  the first way to match the whole pattern wins. The patterns of the program are sequences of
  single characters from a class, greedy and lazy repetitions of a class
  (\<open>Star True\<close> for \<open>*\<close>, \<open>Star False\<close> for \<open>*?\<close>; \<open>x+\<close> is \<open>x\<close> then \<open>x*\<close>),
  the greedy optional group \<open>(?:...)?\<close>, capturing groups, and the anchors \<open>^\<close> and
  \<open>$\<close> under \<open>re.MULTILINE\<close>. \<open>End n st\<close> is not written in a pattern: it marks, while
  group \<open>n\<close> is open, the text that was left when the group was entered.
\<close>

datatype item =
    Ch "char \<Rightarrow> bool"
  | Star bool "char \<Rightarrow> bool"
  | Opt "item list"
  | Grp nat "item list"
  | End nat string
  | Bol
  | Eol

type_synonym caps = "nat \<Rightarrow> string option"

text \<open>
  \<open>bt r i bl s c\<close> matches the items \<open>r\<close> at position \<open>i\<close>, where \<open>s\<close> is the text from
  \<open>i\<close> on, \<open>bl\<close> says that \<open>i\<close> is the start of the text or follows a newline, and
  \<open>c\<close> holds the groups captured so far. The result is the end position, the flag and
  the text there, and the groups.
\<close>

fun bt :: "item list \<Rightarrow> nat \<Rightarrow> bool \<Rightarrow> string \<Rightarrow> caps \<Rightarrow> (nat \<times> bool \<times> string \<times> caps) option" where
  "bt [] i bl s c = Some (i, bl, s, c)"
| "bt (Ch p # r) i bl [] c = None"
| "bt (Ch p # r) i bl (x # xs) c = (if p x then bt r (Suc i) (x = nl) xs c else None)"
| "bt (Star True p # r) i bl [] c = bt r i bl [] c"
| "bt (Star True p # r) i bl (x # xs) c =
     (if p x
      then (case bt (Star True p # r) (Suc i) (x = nl) xs c of
              Some m \<Rightarrow> Some m
            | None \<Rightarrow> bt r i bl (x # xs) c)
      else bt r i bl (x # xs) c)"
| "bt (Star False p # r) i bl [] c = bt r i bl [] c"
| "bt (Star False p # r) i bl (x # xs) c =
     (case bt r i bl (x # xs) c of
        Some m \<Rightarrow> Some m
      | None \<Rightarrow> if p x then bt (Star False p # r) (Suc i) (x = nl) xs c else None)"
| "bt (Opt ys # r) i bl s c =
     (case bt (ys @ r) i bl s c of
        Some m \<Rightarrow> Some m
      | None \<Rightarrow> bt r i bl s c)"
| "bt (Grp n ys # r) i bl s c = bt (ys @ End n s # r) i bl s c"
| "bt (End n st # r) i bl s c = bt r i bl s (c(n \<mapsto> take (length st - length s) st))"
| "bt (Bol # r) i bl s c = (if bl then bt r i bl s c else None)"
| "bt (Eol # r) i bl [] c = bt r i bl [] c"
| "bt (Eol # r) i bl (x # xs) c = (if x = nl then bt r i bl (x # xs) c else None)"

text \<open>What a successful match leaves: \<open>m.start()\<close>, \<open>m.end()\<close>, the text from
  \<open>m.end()\<close> on (with its line-start flag) and the groups.\<close>

record rmatch =
  m_start :: nat
  m_end :: nat
  m_bol :: bool
  m_rest :: string
  m_caps :: caps

definition match_at :: "item list \<Rightarrow> nat \<Rightarrow> bool \<Rightarrow> string \<Rightarrow> rmatch option" where
  "match_at r i bl s =
     (case bt r i bl s Map.empty of
        None \<Rightarrow> None
      | Some (e, bl', s', c) \<Rightarrow>
          Some \<lparr>m_start = i, m_end = e, m_bol = bl', m_rest = s', m_caps = c\<rparr>)"

text \<open>\<open>pattern.search\<close> from position \<open>i\<close>: the leftmost position where the pattern
  matches, the end of the text included.\<close>

fun search :: "item list \<Rightarrow> nat \<Rightarrow> bool \<Rightarrow> string \<Rightarrow> rmatch option" where
  "search r i bl [] = match_at r i bl []"
| "search r i bl (x # xs) =
     (case match_at r i bl (x # xs) of
        Some m \<Rightarrow> Some m
      | None \<Rightarrow> search r (Suc i) (x = nl) xs)"

lemma bt_length:
  "bt r i bl s c = Some (e, bl', s', c') \<Longrightarrow> e + length s' = i + length s \<and> i \<le> e"
  by (induction r i bl s c rule: bt.induct) (auto split: if_splits option.splits)

lemma match_at_length:
  "match_at r i bl s = Some m \<Longrightarrow>
     m_start m = i \<and> m_end m + length (m_rest m) = i + length s \<and> i \<le> m_end m"
  by (auto simp: match_at_def split: option.splits dest: bt_length)

lemma search_length:
  "search r i bl s = Some m \<Longrightarrow>
     i \<le> m_start m \<and> m_start m \<le> m_end m \<and> m_end m + length (m_rest m) = i + length s"
proof (induction r i bl s rule: search.induct)
  case (1 r i bl)
  then show ?case using match_at_length [of r i bl "[]" m] by simp
next
  case (2 r i bl x xs)
  show ?case
  proof (cases "match_at r i bl (x # xs)")
    case None
    with 2 show ?thesis by fastforce
  next
    case (Some m')
    with 2 show ?thesis using match_at_length [of r i bl "x # xs" m] by simp
  qed
qed

text \<open>
  \<open>pattern.finditer\<close>: the matches from left to right, each search starting where the
  last match ended. After an empty match the search moves on by one character; no pattern
  of the program matches the empty text, so this case never runs here.
\<close>

function finditer :: "item list \<Rightarrow> nat \<Rightarrow> bool \<Rightarrow> string \<Rightarrow> rmatch list" where
  "finditer r i bl s =
     (case search r i bl s of
        None \<Rightarrow> []
      | Some m \<Rightarrow>
          m # (if m_start m < m_end m then finditer r (m_end m) (m_bol m) (m_rest m)
               else (case m_rest m of
                       [] \<Rightarrow> []
                     | x # xs \<Rightarrow> finditer r (Suc (m_end m)) (x = nl) xs)))"
  by pat_completeness auto
termination
proof (relation "measure (\<lambda>(r, i, bl, s). length s)")
  show "wf (measure (\<lambda>(r, i, bl, s). length s))" by simp
next
  fix r i bl s m
  assume "search r i bl s = Some m" "m_start m < m_end m"
  then show "((r, m_end m, m_bol m, m_rest m), (r, i, bl, s)) \<in> measure (\<lambda>(r, i, bl, s). length s)"
    using search_length [of r i bl s m] by simp
next
  fix r i bl s m x xs
  assume "search r i bl s = Some m" "\<not> m_start m < m_end m" "m_rest m = x # xs"
  then show "((r, Suc (m_end m), x = nl, xs), (r, i, bl, s)) \<in> measure (\<lambda>(r, i, bl, s). length s)"
    using search_length [of r i bl s m] by simp
qed

declare finditer.simps [simp del]

text \<open>\<open>re.sub(pattern, '', s)\<close>: the text with every match of \<open>finditer\<close> cut out.
  \<open>cut_matches i s ms\<close> takes the text \<open>s\<close> from position \<open>i\<close> on.\<close>

fun cut_matches :: "nat \<Rightarrow> string \<Rightarrow> rmatch list \<Rightarrow> string" where
  "cut_matches i s [] = s"
| "cut_matches i s (m # ms) =
     take (m_start m - i) s @ cut_matches (m_end m) (drop (m_end m - i) s) ms"

definition re_sub_empty :: "item list \<Rightarrow> string \<Rightarrow> string" where
  "re_sub_empty r s = cut_matches 0 s (finditer r 0 True s)"

section \<open>utils.py\<close>

text \<open>\<open>r'/\*.*?\*/'\<close> with \<open>re.DOTALL\<close>.\<close>

definition pattern_block :: "item list" where
  "pattern_block =
     [Ch (lit CHR ''/''), Ch (lit CHR ''*''), Star False any_char, Ch (lit CHR ''*''), Ch (lit CHR ''/'')]"

text \<open>\<open>r'//.*?$'\<close> with \<open>re.MULTILINE\<close>.\<close>

definition pattern_line :: "item list" where
  "pattern_line = [Ch (lit CHR ''/''), Ch (lit CHR ''/''), Star False not_nl, Eol]"

definition strip_comments :: "string \<Rightarrow> string" where
  "strip_comments source =
     (let source_no_block = re_sub_empty pattern_block source;
          source_no_comments = re_sub_empty pattern_line source_no_block
      in source_no_comments)"

record ArgumentRecord =
  a_raw :: string
  a_type :: string
  a_name :: string

text \<open>The loop of \<open>split_args\<close> over the characters, with its three variables.\<close>

fun split_loop :: "string list \<Rightarrow> int \<Rightarrow> string \<Rightarrow> string \<Rightarrow> string list \<times> int \<times> string" where
  "split_loop args depth current [] = (args, depth, current)"
| "split_loop args depth current (c # cs) =
     (if c = CHR '','' \<and> depth = 0 then split_loop (args @ [strip current]) depth [] cs
      else split_loop args
             (if c = CHR ''('' then depth + 1 else if c = CHR '')'' then depth - 1 else depth)
             (current @ [c]) cs)"

definition split_type_name :: "string \<Rightarrow> string \<times> string" where
  "split_type_name arg =
     (case rsplit1 arg of
        [p] \<Rightarrow> (p, [])
      | p # q # ps \<Rightarrow> (strip p, strip q)
      | [] \<Rightarrow> ([], []))"

definition split_args :: "string \<Rightarrow> ArgumentRecord list" where
  "split_args arg_text0 =
     (let arg_text = strip arg_text0 in
      if arg_text = [] \<or> lower arg_text = ''void'' then []
      else
        (let (args0, depth, current) = split_loop [] 0 [] arg_text;
             args = (if strip current \<noteq> [] then args0 @ [strip current] else args0)
         in map (\<lambda>a. (let (typ, name) = split_type_name a
                       in \<lparr>a_raw = a, a_type = typ, a_name = name\<rparr>)) args))"


section \<open>parser\_lib.py: the regex-based parser\<close>

text \<open>A literal piece of a pattern, character by character.\<close>

definition lits :: "string \<Rightarrow> item list" where
  "lits s = map (\<lambda>a. Ch (lit a)) s"

text \<open>\<open>r'^\s*#\s*define\s+([A-Za-z_]\w*)\s+(.*?)\s*$'\<close> with \<open>re.MULTILINE\<close>.\<close>

definition macro_pattern :: "item list" where
  "macro_pattern =
     [Bol, Star True is_space, Ch (lit CHR ''#''), Star True is_space] @ lits ''define'' @
     [Ch is_space, Star True is_space,
      Grp 1 [Ch is_ident_start, Star True is_word],
      Ch is_space, Star True is_space,
      Grp 2 [Star False not_nl],
      Star True is_space, Eol]"

text \<open>\<open>r'typedef\s+enum\s*(?:\w*\s*)?\{(.*?)\}\s*([A-Za-z_]\w*)\s*;'\<close> with \<open>re.S\<close>.\<close>

definition enum_pattern :: "item list" where
  "enum_pattern =
     lits ''typedef'' @ [Ch is_space, Star True is_space] @ lits ''enum'' @
     [Star True is_space, Opt [Star True is_word, Star True is_space],
      Ch (lit CHR ''{''), Grp 1 [Star False any_char], Ch (lit CHR ''}''),
      Star True is_space, Grp 2 [Ch is_ident_start, Star True is_word],
      Star True is_space, Ch (lit CHR '';'')]"

text \<open>\<open>r'typedef\s+struct\s*(?:[A-Za-z_]\w*\s*)?\{(.*?)\}\s*([A-Za-z_]\w*)\s*;'\<close>
  with \<open>re.S\<close>.\<close>

definition struct_pattern :: "item list" where
  "struct_pattern =
     lits ''typedef'' @ [Ch is_space, Star True is_space] @ lits ''struct'' @
     [Star True is_space, Opt [Ch is_ident_start, Star True is_word, Star True is_space],
      Ch (lit CHR ''{''), Grp 1 [Star False any_char], Ch (lit CHR ''}''),
      Star True is_space, Grp 2 [Ch is_ident_start, Star True is_word],
      Star True is_space, Ch (lit CHR '';'')]"

text \<open>The part the two function patterns share:
  \<open>r'([A-Za-z_][\w \*\(\)]+?)\s+([A-Za-z_]\w*)\s*\((.*?)\)\s*'\<close> with \<open>re.S\<close>.\<close>

definition func_head :: "item list" where
  "func_head =
     [Grp 1 [Ch is_ident_start, Ch is_ret_char, Star False is_ret_char],
      Ch is_space, Star True is_space,
      Grp 2 [Ch is_ident_start, Star True is_word],
      Star True is_space, Ch (lit CHR ''(''), Grp 3 [Star False any_char], Ch (lit CHR '')''),
      Star True is_space]"

text \<open>\<open>func_def_pattern\<close> ends with \<open>\{\<close>, \<open>proto_pattern\<close> with \<open>;\<close>.\<close>

definition func_def_pattern :: "item list" where
  "func_def_pattern = func_head @ [Ch (lit CHR ''{'')]"

definition proto_pattern :: "item list" where
  "proto_pattern = func_head @ [Ch (lit CHR '';'')]"

text \<open>
  \<open>m.group(k)\<close>. Python gives \<open>None\<close> for a group that took no part in the match; every
  group of the patterns above lies outside the optional parts, so it is set in every match
  (lemmas \<open>groups_set\<close> and \<open>pattern_groups\<close> below) and the empty default is never taken.
\<close>

definition group :: "rmatch \<Rightarrow> nat \<Rightarrow> string" where
  "group m k = (case m_caps m k of None \<Rightarrow> [] | Some g \<Rightarrow> g)"

text \<open>How an f-string renders a value that may be \<open>None\<close>.\<close>

definition fmt :: "string option \<Rightarrow> string" where
  "fmt x = (case x of None \<Rightarrow> ''None'' | Some g \<Rightarrow> g)"

record MacroRecord =
  macro_name :: string
  macro_value :: string
  macro_comment :: string

record TypeRecord =
  typedef_name :: "string option"
  kind :: string
  num_members :: nat
  members :: "string list"
  type_comment :: string

record FunctionRecord =
  fn_name :: string
  return_type :: string
  num_args :: nat
  args :: "ArgumentRecord list"
  body :: string
  fn_comment :: string

record Counts =
  n_macros :: nat
  n_structs :: nat
  n_enums :: nat
  n_functions :: nat

record ParseResult =
  macros :: "MacroRecord list"
  types :: "TypeRecord list"
  apis :: "FunctionRecord list"
  counts :: Counts

definition macro_of_match :: "rmatch \<Rightarrow> MacroRecord" where
  "macro_of_match m =
     (let name = group m 1;
          val = strip (group m 2)
      in \<lparr>macro_name = name, macro_value = val,
          macro_comment = ''MACROS = macro defined with name '' @ name @ '' and value '' @ val\<rparr>)"

definition type_comment_of :: "string option \<Rightarrow> nat \<Rightarrow> string" where
  "type_comment_of name n =
     ''STRUCT & ENUM = defined with name '' @ fmt name @ '' and have '' @ str_nat n @ '' members''"

definition enum_members :: "string \<Rightarrow> string list" where
  "enum_members body0 =
     (let members0 = map (\<lambda>line. strip_commas (strip (first_field CHR ''='' line)))
                       (filter (\<lambda>line. strip line \<noteq> []) (splitlines body0))
      in filter (\<lambda>x. x \<noteq> []) members0)"

definition enum_of_match :: "rmatch \<Rightarrow> TypeRecord" where
  "enum_of_match m =
     (let body0 = group m 1;
          name = m_caps m 2;
          members0 = enum_members body0
      in \<lparr>typedef_name = name, kind = ''enum'', num_members = length members0,
          members = members0, type_comment = type_comment_of name (length members0)\<rparr>)"

text \<open>The loop over the lines of a struct body.\<close>

fun struct_members :: "string list \<Rightarrow> string list" where
  "struct_members [] = []"
| "struct_members (line0 # rest) =
     (let line = strip line0 in
      if line = [] \<or> take 2 line = ''//'' then struct_members rest
      else if CHR '';'' \<in> set line
      then (let member = strip (first_field CHR '';'' line);
                parts = rsplit1 member;
                mem_name = strip (last parts)
            in mem_name # struct_members rest)
      else struct_members rest)"

definition struct_of_match :: "rmatch \<Rightarrow> TypeRecord" where
  "struct_of_match m =
     (let body0 = group m 1;
          name = m_caps m 2;
          members0 = struct_members (splitlines body0)
      in \<lparr>typedef_name = name, kind = ''struct'', num_members = length members0,
          members = members0, type_comment = type_comment_of name (length members0)\<rparr>)"

text \<open>
  The \<open>while\<close> loop that collects a function body: \<open>scan_body depth body s\<close> runs it
  on the text \<open>s\<close> from index \<open>i\<close> on and gives \<open>body\<close> and \<open>depth\<close> when the loop
  is left, by \<open>break\<close> or at the end of the text.
\<close>

fun scan_body :: "int \<Rightarrow> string \<Rightarrow> string \<Rightarrow> string \<times> int" where
  "scan_body depth body0 [] = (body0, depth)"
| "scan_body depth body0 (ch # cs) =
     (if ch = CHR ''{'' then scan_body (depth + 1) (body0 @ [ch]) cs
      else if ch = CHR ''}''
      then (if depth - 1 = 0 then (body0 @ [ch], depth - 1)
            else scan_body (depth - 1) (body0 @ [ch]) cs)
      else scan_body depth (body0 @ [ch]) cs)"

definition api_comment_of :: "string \<Rightarrow> nat \<Rightarrow> string \<Rightarrow> string" where
  "api_comment_of name n ret =
     ''API = Function with name '' @ name @ '' having '' @ str_nat n @
     '' arguments with return type '' @ ret"

definition func_of_match :: "string \<Rightarrow> rmatch \<Rightarrow> FunctionRecord" where
  "func_of_match src_nocom m =
     (let ret = join '' '' (split_ws (group m 1));
          name = group m 2;
          args_text = group m 3;
          args0 = split_args args_text;
          start_pos = m_end m - 1;
          body0 = strip (fst (scan_body 0 [] (drop start_pos src_nocom)))
      in \<lparr>fn_name = name, return_type = ret, num_args = length args0, args = args0,
          body = (if body0 \<noteq> [] then body0 else ''no body''),
          fn_comment = api_comment_of name (length args0) ret\<rparr>)"

definition proto_of_match :: "rmatch \<Rightarrow> FunctionRecord" where
  "proto_of_match m =
     (let name = group m 2;
          ret = join '' '' (split_ws (group m 1));
          args_text = group m 3;
          args0 = split_args args_text
      in \<lparr>fn_name = name, return_type = ret, num_args = length args0, args = args0,
          body = ''no body'',
          fn_comment = api_comment_of name (length args0) ret\<rparr>)"

text \<open>The four loops of \<open>_parse_with_regex\<close>, each over the matches of its pattern.\<close>

definition macro_records :: "string \<Rightarrow> MacroRecord list" where
  "macro_records src_nocom = map macro_of_match (finditer macro_pattern 0 True src_nocom)"

definition enum_records :: "string \<Rightarrow> TypeRecord list" where
  "enum_records src_nocom = map enum_of_match (finditer enum_pattern 0 True src_nocom)"

definition struct_records :: "string \<Rightarrow> TypeRecord list" where
  "struct_records src_nocom = map struct_of_match (finditer struct_pattern 0 True src_nocom)"

definition def_records :: "string \<Rightarrow> FunctionRecord list" where
  "def_records src_nocom =
     map (func_of_match src_nocom) (finditer func_def_pattern 0 True src_nocom)"

definition proto_records :: "FunctionRecord list \<Rightarrow> string \<Rightarrow> FunctionRecord list" where
  "proto_records apis0 src_nocom =
     (let existing_names = set (map fn_name apis0)
      in map proto_of_match
           (filter (\<lambda>m. group m 2 \<notin> existing_names) (finditer proto_pattern 0 True src_nocom)))"

text \<open>\<open>_parse_with_regex\<close>, on the text that \<open>read_file\<close> returned.\<close>

definition parse_with_regex :: "string \<Rightarrow> ParseResult" where
  "parse_with_regex src =
     (let src_nocom = strip_comments src;
          macros0 = macro_records src_nocom;
          types0 = enum_records src_nocom @ struct_records src_nocom;
          defs = def_records src_nocom;
          apis0 = defs @ proto_records defs src_nocom;
          counts0 = \<lparr>n_macros = length macros0,
                     n_structs = length (filter (\<lambda>t. kind t = ''struct'') types0),
                     n_enums = length (filter (\<lambda>t. kind t = ''enum'') types0),
                     n_functions = length apis0\<rparr>
      in \<lparr>macros = macros0, types = types0, apis = apis0, counts = counts0\<rparr>)"

fun is_grp :: "nat \<Rightarrow> item \<Rightarrow> bool" where
  "is_grp n (Grp k ys) = (k = n)"
| "is_grp n (End k st) = (k = n)"
| "is_grp n x = False"

definition reach :: "item list \<Rightarrow> (nat \<times> bool \<times> string \<times> caps) \<Rightarrow> nat \<Rightarrow> string \<Rightarrow> bool" where
  "reach ys m i s = (\<exists>i' bl' s' c'. bt ys i' bl' s' c' = Some m \<and> i \<le> i' \<and> s' = drop (i' - i) s)"

lemma bt_caps_set:
  "bt r i bl s c = Some (e, bl', s', c') \<Longrightarrow> c n \<noteq> None \<or> (\<exists>x\<in>set r. is_grp n x) \<Longrightarrow> c' n \<noteq> None"
  by (induction r i bl s c rule: bt.induct) (auto split: if_splits option.splits)

lemma reach_here: "bt ys i bl s c = Some m \<Longrightarrow> reach ys m i s"
  unfolding reach_def by (intro exI [of _ i] exI [of _ bl] exI [of _ s] exI [of _ c]) simp

lemma reach_step: "reach ys m (Suc i) xs \<Longrightarrow> reach ys m i (x # xs)"
  unfolding reach_def
proof (elim exE conjE)
  fix i' bl' s' c'
  assume a: "bt ys i' bl' s' c' = Some m" "Suc i \<le> i'" "s' = drop (i' - Suc i) xs"
  then obtain k where k: "i' - i = Suc k" "i' - Suc i = k" by (cases "i' - i") auto
  with a show "\<exists>i' bl' s' c'. bt ys i' bl' s' c' = Some m \<and> i \<le> i' \<and> s' = drop (i' - i) (x # xs)"
    by (intro exI [of _ i'] exI [of _ bl'] exI [of _ s'] exI [of _ c']) simp
qed

lemma bt_split:
  "bt r i bl s c = Some m \<Longrightarrow> r = xs @ ys \<Longrightarrow> reach ys m i s"
proof (induction r i bl s c arbitrary: xs rule: bt.induct)
  case (1 i bl s c)
  then show ?case by (auto intro: reach_here)
next
  case (2 p r i bl c)
  show ?case
  proof (cases xs)
    case Nil
    with 2 show ?thesis by (auto intro: reach_here simp del: bt.simps)
  next
    case (Cons a as)
    with 2 show ?thesis by auto
  qed
next
  case (3 p r i bl x xs' c)
  show ?case
  proof (cases xs)
    case Nil
    with 3 show ?thesis by (auto intro: reach_here simp del: bt.simps)
  next
    case (Cons a as)
    with 3 show ?thesis by (auto split: if_splits intro: reach_step)
  qed
next
  case (4 p r i bl c)
  show ?case
  proof (cases xs)
    case Nil
    with 4 show ?thesis by (auto intro: reach_here simp del: bt.simps)
  next
    case (Cons a as)
    with 4 show ?thesis by auto
  qed
next
  case (5 p r i bl x xs' c)
  show ?case
  proof (cases xs)
    case Nil
    with 5(4,5) show ?thesis by (auto intro: reach_here simp del: bt.simps)
  next
    case (Cons a as)
    with 5(4,5) have r: "r = as @ ys" and a: "a = Star True p" by auto
    show ?thesis
    proof (cases "p x")
      case True
      show ?thesis
      proof (cases "bt (Star True p # r) (Suc i) (x = nl) xs' c")
        case None
        with 5(4) True have "bt r i bl (x # xs') c = Some m" by simp
        from 5(2) [OF True None this r] show ?thesis .
      next
        case (Some m')
        with 5(4) True have "bt (Star True p # r) (Suc i) (x = nl) xs' c = Some m" by simp
        from 5(1) [OF True this, of "Star True p # as"] r show ?thesis
          by (auto intro: reach_step)
      qed
    next
      case False
      with 5(4) have "bt r i bl (x # xs') c = Some m" by simp
      from 5(3) [OF False this r] show ?thesis .
    qed
  qed
next
  case (6 p r i bl c)
  show ?case
  proof (cases xs)
    case Nil
    with 6 show ?thesis by (auto intro: reach_here simp del: bt.simps)
  next
    case (Cons a as)
    with 6 show ?thesis by auto
  qed
next
  case (7 p r i bl x xs' c)
  show ?case
  proof (cases xs)
    case Nil
    with 7(3,4) show ?thesis by (auto intro: reach_here simp del: bt.simps)
  next
    case (Cons a as)
    with 7(3,4) have r: "r = as @ ys" and a: "a = Star False p" by auto
    show ?thesis
    proof (cases "bt r i bl (x # xs') c")
      case (Some m')
      with 7(3) have "bt r i bl (x # xs') c = Some m" by simp
      from 7(1) [OF this r] show ?thesis .
    next
      case None
      with 7(3) have px: "p x" and b: "bt (Star False p # r) (Suc i) (x = nl) xs' c = Some m"
        by (auto split: if_splits)
      from 7(2) [OF None px b, of "Star False p # as"] r show ?thesis
        by (auto intro: reach_step)
    qed
  qed
next
  case (8 zs r i bl s c)
  show ?case
  proof (cases xs)
    case Nil
    with 8(3,4) show ?thesis by (auto intro: reach_here simp del: bt.simps)
  next
    case (Cons a as)
    with 8(3,4) have r: "r = as @ ys" by auto
    show ?thesis
    proof (cases "bt (zs @ r) i bl s c")
      case (Some m')
      with 8(3) have "bt (zs @ r) i bl s c = Some m" by simp
      from 8(1) [OF this, of "zs @ as"] r show ?thesis by simp
    next
      case None
      with 8(3) have "bt r i bl s c = Some m" by simp
      from 8(2) [OF None this r] show ?thesis .
    qed
  qed
next
  case (9 n zs r i bl s c)
  show ?case
  proof (cases xs)
    case Nil
    with 9(2,3) show ?thesis by (auto intro: reach_here simp del: bt.simps)
  next
    case (Cons a as)
    with 9(2,3) have r: "r = as @ ys" by auto
    from 9(2) have "bt (zs @ End n s # r) i bl s c = Some m" by simp
    from 9(1) [OF this, of "zs @ End n s # as"] r show ?thesis by simp
  qed
next
  case (10 n st r i bl s c)
  show ?case
  proof (cases xs)
    case Nil
    with 10(2,3) show ?thesis by (auto intro: reach_here simp del: bt.simps)
  next
    case (Cons a as)
    with 10(2,3) have r: "r = as @ ys"
      and b: "bt r i bl s (c(n \<mapsto> take (length st - length s) st)) = Some m" by auto
    from 10(1) [OF b r] show ?thesis .
  qed
next
  case (11 r i bl s c)
  show ?case
  proof (cases xs)
    case Nil
    with 11(2,3) show ?thesis by (auto intro: reach_here simp del: bt.simps)
  next
    case (Cons a as)
    with 11 show ?thesis by (auto split: if_splits)
  qed
next
  case (12 r i bl c)
  show ?case
  proof (cases xs)
    case Nil
    with 12(2,3) show ?thesis by (auto intro: reach_here simp del: bt.simps)
  next
    case (Cons a as)
    with 12 show ?thesis by auto
  qed
next
  case (13 r i bl x xs' c)
  show ?case
  proof (cases xs)
    case Nil
    with 13(2,3) show ?thesis by (auto intro: reach_here simp del: bt.simps)
  next
    case (Cons a as)
    with 13 show ?thesis by (auto split: if_splits)
  qed
qed

text \<open>
  Claim C10. Some parameter lists with two top-level commas in a row, such as
  \<open>int a,,int b\<close>, give an ArgumentRecord whose \<open>raw\<close>, \<open>type\<close> and \<open>name\<close> are
  all empty: the blank token between the commas is kept. A blank token after the last comma
  is the only one dropped, as \<open>int a,\<close> shows.
\<close>

theorem C10_blank_interior_token_kept:
  "split_args ''int a,,int b'' =
     [\<lparr>a_raw = ''int a'', a_type = ''int'', a_name = ''a''\<rparr>,
      \<lparr>a_raw = [], a_type = [], a_name = []\<rparr>,
      \<lparr>a_raw = ''int b'', a_type = ''int'', a_name = ''b''\<rparr>] \<and>
   split_args ''int a, '' = [\<lparr>a_raw = ''int a'', a_type = ''int'', a_name = ''a''\<rparr>]"
  by (simp add: split_args_def strip_def strip_with_def is_space_def lower_def lower_char_def
        split_type_name_def rsplit1_def)

lemma drop_adv: "Suc i \<le> i' \<Longrightarrow> drop (i' - i) (x # xs) = drop (i' - Suc i) xs"
proof -
  assume "Suc i \<le> i'"
  then have "i' - i = Suc (i' - Suc i)" by simp
  then show ?thesis by simp
qed

lemma match_at_bt:
  "match_at r i bl s = Some m \<Longrightarrow>
     bt r i bl s Map.empty = Some (m_end m, m_bol m, m_rest m, m_caps m)"
  by (auto simp: match_at_def split: option.splits)

lemma finditer_None: "search r i bl s = None \<Longrightarrow> finditer r i bl s = []"
  by (subst finditer.simps) simp

lemma finditer_Some:
  "search r i bl s = Some m0 \<Longrightarrow>
     finditer r i bl s =
       m0 # (if m_start m0 < m_end m0 then finditer r (m_end m0) (m_bol m0) (m_rest m0)
             else (case m_rest m0 of
                     [] \<Rightarrow> []
                   | x # xs \<Rightarrow> finditer r (Suc (m_end m0)) (x = nl) xs))"
  by (subst finditer.simps) simp

lemma bt_rest: "bt r i bl s c = Some (e, bl', s', c') \<Longrightarrow> s' = drop (e - i) s"
  using bt_split [of r i bl s c "(e, bl', s', c')" r "[]"] by (auto simp: reach_def)

lemma bt_Ch_last:
  assumes "bt (xs @ [Ch p]) i bl s c = Some (e, bl', s', c')"
  shows "\<exists>x. drop (e - Suc 0 - i) s = x # s' \<and> p x \<and> i < e"
proof -
  from bt_split [OF assms refl] obtain i2 bl2 s2 c2 where
    a: "bt [Ch p] i2 bl2 s2 c2 = Some (e, bl', s', c')" "i \<le> i2" "s2 = drop (i2 - i) s"
    unfolding reach_def by blast
  from a(1) obtain x where "s2 = x # s'" "p x" "e = Suc i2"
    by (cases s2) (auto split: if_splits)
  note x = this
  from x(1) a(3) have "drop (i2 - i) s = x # s'" by simp
  moreover from x(3) have "e - Suc 0 - i = i2 - i" by simp
  ultimately have "drop (e - Suc 0 - i) s = x # s'" by simp
  moreover from x(3) a(2) have "i < e" by simp
  ultimately show ?thesis using x(2) by blast
qed

lemma match_at_start: "match_at r i bl s = Some m \<Longrightarrow> m_start m = i"
  by (auto simp: match_at_def split: option.splits)

lemma search_match:
  "search r i bl s = Some m \<Longrightarrow>
     \<exists>bl'. match_at r (m_start m) bl' (drop (m_start m - i) s) = Some m"
proof (induction r i bl s rule: search.induct)
  case (1 r i bl)
  then show ?case using match_at_start [of r i bl "[]" m] by auto
next
  case (2 r i bl x xs)
  show ?case
  proof (cases "match_at r i bl (x # xs)")
    case (Some m')
    with 2 show ?thesis using match_at_start [of r i bl "x # xs" m] by auto
  next
    case None
    with 2 obtain bl' where b: "match_at r (m_start m) bl' (drop (m_start m - Suc i) xs) = Some m"
      and s: "search r (Suc i) (x = nl) xs = Some m" by auto
    from search_length [OF s] have "Suc i \<le> m_start m" by simp
    then have "drop (m_start m - i) (x # xs) = drop (m_start m - Suc i) xs" by (rule drop_adv)
    with b show ?thesis by auto
  qed
qed

lemma search_rest: "search r i bl s = Some m \<Longrightarrow> m_rest m = drop (m_end m - i) s"
proof -
  assume a: "search r i bl s = Some m"
  from search_match [OF a] obtain bl' where
    b: "match_at r (m_start m) bl' (drop (m_start m - i) s) = Some m" by blast
  from bt_rest [OF match_at_bt [OF b]]
  have "m_rest m = drop (m_end m - m_start m) (drop (m_start m - i) s)" .
  moreover from search_length [OF a] have "i \<le> m_start m" "m_start m \<le> m_end m" by auto
  ultimately show ?thesis by simp
qed

lemma finditer_mem:
  "m \<in> set (finditer r i bl s) \<Longrightarrow>
     i \<le> m_start m \<and> (\<exists>bl'. match_at r (m_start m) bl' (drop (m_start m - i) s) = Some m)"
proof (induction r i bl s rule: finditer.induct)
  case (1 r i bl s)
  show ?case
  proof (cases "search r i bl s")
    case None
    with 1(3) show ?thesis by (simp add: finditer_None)
  next
    case (Some m0)
    note len = search_length [OF Some] and rest = search_rest [OF Some]
    show ?thesis
    proof (cases "m = m0")
      case True
      with Some search_match [OF Some] len show ?thesis by simp
    next
      case False
      show ?thesis
      proof (cases "m_start m0 < m_end m0")
        case True
        with 1(3) False have "m \<in> set (finditer r (m_end m0) (m_bol m0) (m_rest m0))"
          by (simp add: finditer_Some [OF Some])
        from 1(1) [OF Some True this] obtain bl' where
          b: "m_end m0 \<le> m_start m"
             "match_at r (m_start m) bl' (drop (m_start m - m_end m0) (m_rest m0)) = Some m"
          by blast
        have "drop (m_start m - m_end m0) (m_rest m0) = drop (m_start m - i) s"
          using b(1) len rest by simp
        with b len show ?thesis by auto
      next
        case F: False
        with 1(3) False obtain x xs where
          xs: "m_rest m0 = x # xs" and mem: "m \<in> set (finditer r (Suc (m_end m0)) (x = nl) xs)"
          by (cases "m_rest m0") (auto simp: finditer_Some [OF Some])
        from 1(2) [OF Some F xs mem] obtain bl' where
          b: "Suc (m_end m0) \<le> m_start m"
             "match_at r (m_start m) bl' (drop (m_start m - Suc (m_end m0)) xs) = Some m"
          by blast
        have "drop (m_start m - Suc (m_end m0)) xs = drop (m_start m - m_end m0) (m_rest m0)"
          using b(1) xs by (simp add: drop_adv)
        also have "\<dots> = drop (m_start m - i) s"
          using b(1) len rest by simp
        finally show ?thesis using b len by auto
      qed
    qed
  qed
qed

lemma finditer_sorted:
  "sorted_wrt (<) (map m_start (finditer r i bl s)) \<and> (\<forall>m\<in>set (finditer r i bl s). i \<le> m_start m)"
proof (induction r i bl s rule: finditer.induct)
  case (1 r i bl s)
  show ?case
  proof (cases "search r i bl s")
    case None
    then show ?thesis by (simp add: finditer_None)
  next
    case (Some m0)
    note len = search_length [OF Some]
    show ?thesis
    proof (cases "m_start m0 < m_end m0")
      case True
      from 1(1) [OF Some True] True len show ?thesis
        by (fastforce simp: finditer_Some [OF Some])
    next
      case False
      show ?thesis
      proof (cases "m_rest m0")
        case Nil
        with False len show ?thesis by (simp add: finditer_Some [OF Some])
      next
        case (Cons x xs)
        from 1(2) [OF Some False Cons] Cons False len show ?thesis
          by (fastforce simp: finditer_Some [OF Some])
      qed
    qed
  qed
qed

lemma def_match_brace:
  assumes "m \<in> set (finditer func_def_pattern 0 True t)"
  shows "drop (m_end m - 1) t = CHR ''{'' # m_rest m"
proof -
  from finditer_mem [OF assms] obtain bl' where
    "match_at func_def_pattern (m_start m) bl' (drop (m_start m) t) = Some m" by auto
  from match_at_bt [OF this]
  have "bt (func_head @ [Ch (lit CHR ''{'')]) (m_start m) bl' (drop (m_start m) t) Map.empty
          = Some (m_end m, m_bol m, m_rest m, m_caps m)"
    by (simp add: func_def_pattern_def)
  from bt_Ch_last [OF this] obtain x where
    "drop (m_end m - Suc 0 - m_start m) (drop (m_start m) t) = x # m_rest m"
    "lit CHR ''{'' x" "m_start m < m_end m"
    by blast
  then show ?thesis by (simp add: lit_def)
qed

lemma groups_set:
  assumes "m \<in> set (finditer r i bl s)" and "\<exists>x\<in>set r. is_grp n x"
  shows "m_caps m n \<noteq> None"
proof -
  from finditer_mem [OF assms(1)] obtain bl' where
    "match_at r (m_start m) bl' (drop (m_start m - i) s) = Some m" by auto
  from bt_caps_set [OF match_at_bt [OF this]] assms(2) show ?thesis by blast
qed

lemma pattern_groups:
  "\<forall>n\<in>{1, 2}. \<exists>x\<in>set macro_pattern. is_grp n x"
  "\<forall>n\<in>{1, 2}. \<exists>x\<in>set enum_pattern. is_grp n x"
  "\<forall>n\<in>{1, 2}. \<exists>x\<in>set struct_pattern. is_grp n x"
  "\<forall>n\<in>{1, 2, 3}. \<exists>x\<in>set func_def_pattern. is_grp n x"
  "\<forall>n\<in>{1, 2, 3}. \<exists>x\<in>set proto_pattern. is_grp n x"
  by (simp_all add: macro_pattern_def enum_pattern_def struct_pattern_def func_def_pattern_def
      proto_pattern_def func_head_def)

lemma scan_body_count:
  "scan_body d b s = (b', d') \<Longrightarrow>
     int (count_list b' CHR ''{'') - int (count_list b' CHR ''}'') =
     int (count_list b CHR ''{'') - int (count_list b CHR ''}'') + d' - d"
  by (induction d b s rule: scan_body.induct) (auto split: if_splits)

lemma scan_body_eot: "scan_body d b s = (b', d') \<Longrightarrow> d' \<noteq> 0 \<Longrightarrow> b' = b @ s"
  by (induction d b s rule: scan_body.induct) (auto split: if_splits)

lemma scan_body_nonneg: "scan_body d b s = (b', d') \<Longrightarrow> 1 \<le> d \<Longrightarrow> 0 \<le> d'"
  by (induction d b s rule: scan_body.induct) (auto split: if_splits)

lemma scan_body_prefix: "scan_body d b s = (b', d') \<Longrightarrow> \<exists>u. b' = b @ u"
  by (induction d b s rule: scan_body.induct) (auto split: if_splits)

lemma strip_with_core:
  assumes "list_all p a" and "list_all p b" and "m \<noteq> []" and "\<not> p (hd m)" and "\<not> p (last m)"
  shows "strip_with p (a @ m @ b) = m"
proof -
  from assms(1,3,4) have 1: "dropWhile p (a @ m @ b) = m @ b"
    by (cases m) (auto simp: dropWhile_append3 list_all_iff dropWhile_append)
  from assms(2,3,5) have 2: "dropWhile p (rev b @ rev m) = rev m"
    by (cases m rule: rev_cases) (auto simp: list_all_iff dropWhile_append)
  show ?thesis by (simp add: strip_with_def 1 2)
qed

lemma count_list_rev: "count_list (rev xs) c = count_list xs c"
  by (induction xs) auto

lemma count_list_dropWhile: "\<not> p c \<Longrightarrow> count_list (dropWhile p xs) c = count_list xs c"
  by (induction xs) auto

lemma count_list_strip: "\<not> is_space c \<Longrightarrow> count_list (strip s) c = count_list s c"
  by (simp add: strip_def strip_with_def count_list_rev count_list_dropWhile)

lemma dropWhile_snoc: "\<not> p x \<Longrightarrow> \<exists>w. dropWhile p (ys @ [x]) = w @ [x]"
  by (induction ys) auto

lemma strip_with_Cons:
  assumes "\<not> p x"
  shows "\<exists>u. strip_with p (x # s) = x # u"
proof -
  from assms dropWhile_snoc [of p x "rev s"] obtain w where
    "dropWhile p (rev s @ [x]) = w @ [x]" by blast
  with assms show ?thesis by (simp add: strip_with_def)
qed

lemma def_body:
  assumes "m \<in> set (finditer func_def_pattern 0 True t)"
    and "scan_body 0 [] (drop (m_end m - 1) t) = (b, d)"
  shows "body (func_of_match t m) = strip b"
    and "\<exists>u. strip b = CHR ''{'' # u"
    and "0 \<le> d"
    and "int (count_list (strip b) CHR ''{'') = int (count_list (strip b) CHR ''}'') + d"
    and "d \<noteq> 0 \<Longrightarrow> b = drop (m_end m - 1) t"
proof -
  from def_match_brace [OF assms(1)] have dr: "drop (m_end m - 1) t = CHR ''{'' # m_rest m" .
  with assms(2) have sc: "scan_body 1 ''{'' (m_rest m) = (b, d)" by simp
  from scan_body_prefix [OF sc] obtain u where u: "b = CHR ''{'' # u" by auto
  have ns: "\<not> is_space CHR ''{''" "\<not> is_space CHR ''}''" by (simp_all add: is_space_def)
  from strip_with_Cons [of is_space "CHR ''{''" u] ns(1) u show st: "\<exists>u. strip b = CHR ''{'' # u"
    by (simp add: strip_def)
  with assms(2) show "body (func_of_match t m) = strip b"
    by (auto simp: func_of_match_def Let_def)
  from scan_body_nonneg [OF sc] show "0 \<le> d" by simp
  from scan_body_count [OF sc] show
    "int (count_list (strip b) CHR ''{'') = int (count_list (strip b) CHR ''}'') + d"
    by (simp add: count_list_strip ns)
  show "d \<noteq> 0 \<Longrightarrow> b = drop (m_end m - 1) t"
    using scan_body_eot [OF sc] dr by simp
qed

lemma apis_parse:
  "apis (parse_with_regex src) =
     def_records (strip_comments src) @
     proto_records (def_records (strip_comments src)) (strip_comments src)"
  by (simp add: parse_with_regex_def Let_def)

text \<open>
  Claim C1 fails on the code. The definition pattern's third group is a lazy \<open>.*?\<close> that
  also matches line breaks, so a match that starts at a prototype runs through every
  closing parenthesis up to the first one followed by an opening brace. On the input below,
  where \<open>g\<close> has both a prototype and a definition, the only definition match starts at
  the prototype of \<open>f\<close> and ends at the brace of \<open>g\<close>: the definition of \<open>g\<close> is recorded
  under the name \<open>f\<close>, and \<open>g\<close>, whose name the definition pass never saw, is emitted from
  its prototype with the sentinel body.
\<close>

theorem C1_prototype_swallows_definition:
  "apis (parse_with_regex ''int f(int a); int g(int b); int g(int b) { return b; }'') =
     [\<lparr>fn_name = ''f'', return_type = ''int'', num_args = 1,
        args = [\<lparr>a_raw = ''int a); int g(int b); int g(int b'',
                 a_type = ''int a); int g(int b); int g(int'', a_name = ''b''\<rparr>],
        body = ''{ return b; }'',
        fn_comment = ''API = Function with name f having 1 arguments with return type int''\<rparr>,
      \<lparr>fn_name = ''g'', return_type = ''int'', num_args = 1,
        args = [\<lparr>a_raw = ''int b'', a_type = ''int'', a_name = ''b''\<rparr>],
        body = ''no body'',
        fn_comment = ''API = Function with name g having 1 arguments with return type int''\<rparr>]"
  by code_simp

text \<open>
  Claim C2, as amended. When the scan of a matched definition's body reaches the end of
  the text with the depth still positive, the function is emitted all the same: its record
  is in the final output, and its body is the whole text from the opening brace to the end
  of the (comment-stripped) input, trimmed.
\<close>

theorem C2_unbalanced_body_still_emitted:
  assumes "m \<in> set (finditer func_def_pattern 0 True (strip_comments src))"
    and "scan_body 0 [] (drop (m_end m - 1) (strip_comments src)) = (b, d)"
    and "0 < d"
  shows "func_of_match (strip_comments src) m \<in> set (apis (parse_with_regex src)) \<and>
         body (func_of_match (strip_comments src) m) =
           strip (drop (m_end m - 1) (strip_comments src))"
proof -
  from assms(1) have "func_of_match (strip_comments src) m \<in> set (apis (parse_with_regex src))"
    by (simp add: apis_parse def_records_def)
  moreover from def_body(1,5) [OF assms(1,2)] assms(3)
  have "body (func_of_match (strip_comments src) m) =
          strip (drop (m_end m - 1) (strip_comments src))" by simp
  ultimately show ?thesis by simp
qed

theorem C2_unbalanced_body_still_emitted_witness:
  "func_of_match (strip_comments ''ab c(){ d'') (hd (finditer func_def_pattern 0 True (strip_comments ''ab c(){ d'')))
     \<in> set (apis (parse_with_regex ''ab c(){ d'')) \<and>
   body (func_of_match (strip_comments ''ab c(){ d'') (hd (finditer func_def_pattern 0 True (strip_comments ''ab c(){ d'')))) =
     ''{ d''"
proof -
  let ?t = "strip_comments ''ab c(){ d''"
  let ?m = "hd (finditer func_def_pattern 0 True ?t)"
  have "finditer func_def_pattern 0 True ?t \<noteq> []" by code_simp
  then have m: "?m \<in> set (finditer func_def_pattern 0 True ?t)" by (rule hd_in_set)
  have sc: "scan_body 0 [] (drop (m_end ?m - 1) ?t) = (''{ d'', 1)" by code_simp
  have st: "strip (drop (m_end ?m - 1) ?t) = ''{ d''" by code_simp
  from C2_unbalanced_body_still_emitted [OF m sc] st show ?thesis by simp
qed

theorem C2_counterexample:
  "apis (parse_with_regex ''ab c(){'') =
     [\<lparr>fn_name = ''c'', return_type = ''ab'', num_args = 0, args = [], body = ''{'',
        fn_comment = ''API = Function with name c having 0 arguments with return type ab''\<rparr>] \<and>
   scan_body 0 [] ''{'' = (''{'', 1)"
  by code_simp

text \<open>
  The brace depth of a text is its number of \<open>{\<close> minus its number of \<open>}\<close>. The braces
  opened at the start of \<open>s\<close> close at \<open>k\<close> when the first \<open>k\<close> characters are the
  shortest non-empty prefix of depth zero: the prefix that ends with the matching brace.
\<close>

definition brace_depth :: "string \<Rightarrow> int" where
  "brace_depth p = int (count_list p CHR ''{'') - int (count_list p CHR ''}'')"

definition closes_at :: "string \<Rightarrow> nat \<Rightarrow> bool" where
  "closes_at s k =
     (0 < k \<and> k \<le> length s \<and> brace_depth (take k s) = 0 \<and>
      (\<forall>j\<in>set [1..<k]. brace_depth (take j s) \<noteq> 0))"

lemma brace_depth_Cons:
  "brace_depth (ch # p) =
     (if ch = CHR ''{'' then 1 else if ch = CHR ''}'' then -1 else 0) + brace_depth p"
  by (simp add: brace_depth_def)

lemma brace_depth_Nil: "brace_depth [] = 0"
  by (simp add: brace_depth_def)

lemma scan_body_general:
  "1 \<le> d0 \<Longrightarrow> scan_body d0 b0 s = (b, d) \<Longrightarrow>
     (\<exists>k. 0 < k \<and> k \<le> length s \<and> d0 + brace_depth (take k s) = 0 \<and>
          (\<forall>j<k. 1 \<le> d0 + brace_depth (take j s)) \<and>
          last (take k s) = CHR ''}'' \<and> b = b0 @ take k s \<and> d = 0) \<or>
     ((\<forall>j<Suc (length s). 1 \<le> d0 + brace_depth (take j s)) \<and>
      b = b0 @ s \<and> d = d0 + brace_depth s)"
proof (induction s arbitrary: d0 b0)
  case Nil
  then show ?case by (simp add: brace_depth_Nil)
next
  case (Cons ch cs)
  let ?dl = "if ch = CHR ''{'' then 1 else if ch = CHR ''}'' then -1 else (0::int)"
  show ?case
  proof (cases "ch = CHR ''}'' \<and> d0 - 1 = 0")
    case True
    with Cons(3) have "b = b0 @ [ch]" "d = 0" by auto
    with True Cons(2) have
      "0 < Suc 0 \<and> Suc 0 \<le> length (ch # cs) \<and> d0 + brace_depth (take (Suc 0) (ch # cs)) = 0 \<and>
       (\<forall>j<Suc 0. 1 \<le> d0 + brace_depth (take j (ch # cs))) \<and>
       last (take (Suc 0) (ch # cs)) = CHR ''}'' \<and> b = b0 @ take (Suc 0) (ch # cs) \<and> d = 0"
      by (simp add: brace_depth_Cons brace_depth_Nil)
    then show ?thesis by blast
  next
    case False
    with Cons(2) have d1: "1 \<le> d0 + ?dl" by auto
    from False Cons(3) have run: "scan_body (d0 + ?dl) (b0 @ [ch]) cs = (b, d)"
      by (auto split: if_splits)
    from Cons(1) [OF d1 run] show ?thesis
    proof (elim disjE exE conjE)
      fix k
      assume k: "0 < k" "k \<le> length cs" "d0 + ?dl + brace_depth (take k cs) = 0"
        "\<forall>j<k. 1 \<le> d0 + ?dl + brace_depth (take j cs)"
        "last (take k cs) = CHR ''}''" "b = (b0 @ [ch]) @ take k cs" "d = 0"
      from k(1,2) have ne: "take k cs \<noteq> []" by auto
      have "0 < Suc k \<and> Suc k \<le> length (ch # cs) \<and>
            d0 + brace_depth (take (Suc k) (ch # cs)) = 0 \<and>
            (\<forall>j<Suc k. 1 \<le> d0 + brace_depth (take j (ch # cs))) \<and>
            last (take (Suc k) (ch # cs)) = CHR ''}'' \<and> b = b0 @ take (Suc k) (ch # cs) \<and> d = 0"
        using k ne Cons(2)
        by (simp add: All_less_Suc2 brace_depth_Cons brace_depth_Nil add.assoc)
      then show ?thesis by blast
    next
      assume a: "\<forall>j<Suc (length cs). 1 \<le> d0 + ?dl + brace_depth (take j cs)"
        "b = (b0 @ [ch]) @ cs" "d = d0 + ?dl + brace_depth cs"
      have "(\<forall>j<Suc (length (ch # cs)). 1 \<le> d0 + brace_depth (take j (ch # cs))) \<and>
            b = b0 @ ch # cs \<and> d = d0 + brace_depth (ch # cs)"
        using a Cons(2)
        by (simp add: All_less_Suc2 [of "Suc (length cs)"] brace_depth_Cons brace_depth_Nil add.assoc)
      then show ?thesis by blast
    qed
  qed
qed


lemma closes_at_unique: "closes_at s k \<Longrightarrow> closes_at s k' \<Longrightarrow> k = k'"
proof (rule ccontr)
  assume a: "closes_at s k" "closes_at s k'" and ne: "k \<noteq> k'"
  have *: "\<And>i j. closes_at s i \<Longrightarrow> closes_at s j \<Longrightarrow> i < j \<Longrightarrow> False"
  proof -
    fix i j
    assume "closes_at s i" "closes_at s j" "i < j"
    then have "i \<in> set [1..<j]" "brace_depth (take i s) = 0"
      "\<forall>x\<in>set [1..<j]. brace_depth (take x s) \<noteq> 0"
      by (auto simp: closes_at_def)
    then show False by blast
  qed
  from ne consider "k < k'" | "k' < k" by linarith
  then show False using * a by cases blast+
qed

lemma scan_from_brace:
  assumes "scan_body 0 [] (CHR ''{'' # rest) = (b, d)"
  shows "(\<exists>k. closes_at (CHR ''{'' # rest) k \<and> b = take k (CHR ''{'' # rest) \<and> d = 0 \<and>
              last b = CHR ''}'') \<or>
         ((\<forall>k. \<not> closes_at (CHR ''{'' # rest) k) \<and> b = CHR ''{'' # rest \<and> 0 < d)"
proof -
  let ?s = "CHR ''{'' # rest"
  have bd: "\<And>j. brace_depth (take (Suc j) ?s) = 1 + brace_depth (take j rest)"
    by (simp add: brace_depth_Cons)
  from assms have "scan_body 1 ''{'' rest = (b, d)" by simp
  moreover have "(1::int) \<le> 1" by simp
  ultimately have "(\<exists>k. 0 < k \<and> k \<le> length rest \<and> 1 + brace_depth (take k rest) = 0 \<and>
          (\<forall>j<k. 1 \<le> 1 + brace_depth (take j rest)) \<and>
          last (take k rest) = CHR ''}'' \<and> b = ''{'' @ take k rest \<and> d = 0) \<or>
     ((\<forall>j<Suc (length rest). 1 \<le> 1 + brace_depth (take j rest)) \<and>
      b = ''{'' @ rest \<and> d = 1 + brace_depth rest)"
    using scan_body_general [of 1 "''{''" rest b d] by blast
  then show ?thesis
  proof (elim disjE exE conjE)
    fix k
    assume k: "0 < k" "k \<le> length rest" "1 + brace_depth (take k rest) = 0"
      "\<forall>j<k. 1 \<le> 1 + brace_depth (take j rest)"
      "last (take k rest) = CHR ''}''" "b = ''{'' @ take k rest" "d = 0"
    have "\<forall>j\<in>set [1..<Suc k]. brace_depth (take j ?s) \<noteq> 0"
    proof
      fix j assume "j \<in> set [1..<Suc k]"
      then have "1 \<le> j \<and> j < Suc k" unfolding set_upt by simp
      then obtain j' where j: "j = Suc j'" "j' < k" by (cases j) auto
      with k(4) have "1 \<le> 1 + brace_depth (take j' rest)" by blast
      with j bd [of j'] show "brace_depth (take j ?s) \<noteq> 0" by simp
    qed
    with k(1,2,3) bd [of k] have "closes_at ?s (Suc k)"
      unfolding closes_at_def by simp
    moreover from k(1,2) have "take k rest \<noteq> []" by auto
    with k(5,6) have "last b = CHR ''}''" by simp
    moreover from k(6) have "b = take (Suc k) ?s" by simp
    ultimately show ?thesis using k(7) by blast
  next
    assume a: "\<forall>j<Suc (length rest). 1 \<le> 1 + brace_depth (take j rest)"
      "b = ''{'' @ rest" "d = 1 + brace_depth rest"
    have "\<not> closes_at ?s K" for K
    proof
      assume c: "closes_at ?s K"
      then obtain j where j: "K = Suc j" "j < Suc (length rest)"
        by (cases K) (auto simp: closes_at_def)
      with a(1) have "1 \<le> 1 + brace_depth (take j rest)" by blast
      with c j bd [of j] show False by (simp add: closes_at_def)
    qed
    moreover from a(1) have "1 \<le> 1 + brace_depth (take (length rest) rest)" by blast
    with a(3) have "0 < d" by simp
    ultimately show ?thesis using a(2) by simp
  qed
qed


lemma strip_braced:
  assumes "b \<noteq> []" and "hd b = CHR ''{''" and "last b = CHR ''}''"
  shows "strip b = b"
proof -
  have "\<not> is_space CHR ''{''" "\<not> is_space CHR ''}''" by (simp_all add: is_space_def)
  with assms strip_with_core [of is_space "[]" "[]" b] show ?thesis
    by (simp add: strip_def)
qed

text \<open>
  Claim C4, as amended. Let \<open>s\<close> be the text from the opening brace of a matched definition
  to the end of the input (it starts with that brace), and let the scan of \<open>s\<close> stop with body \<open>b\<close> at depth \<open>d\<close>. The
  record's body holds exactly \<open>d \<ge> 0\<close> more opening than closing braces. When the opening
  brace has a matching closing brace (the shortest non-empty prefix of \<open>s\<close> with as many
  \<open>{\<close> as \<open>}\<close> ends there), the scan stops at it with \<open>d = 0\<close>, the body is exactly
  that prefix, and the counts are equal. When it has none, the scan runs to the end of the
  text with \<open>d > 0\<close>, the body is the whole of \<open>s\<close> trimmed, and the counts differ.
\<close>

theorem C4_body_brace_counts:
  assumes "m \<in> set (finditer func_def_pattern 0 True t)"
    and "scan_body 0 [] (drop (m_end m - 1) t) = (b, d)"
  shows "func_of_match t m \<in> set (def_records t) \<and> 0 \<le> d \<and>
         int (count_list (body (func_of_match t m)) CHR ''{'') =
         int (count_list (body (func_of_match t m)) CHR ''}'') + d \<and>
         hd (drop (m_end m - 1) t) = CHR ''{'' \<and>
         (\<forall>k. closes_at (drop (m_end m - 1) t) k \<longrightarrow>
            d = 0 \<and> body (func_of_match t m) = take k (drop (m_end m - 1) t)) \<and>
         ((\<forall>k. \<not> closes_at (drop (m_end m - 1) t) k) \<longrightarrow>
            0 < d \<and> body (func_of_match t m) = strip (drop (m_end m - 1) t))"
proof -
  let ?s = "drop (m_end m - 1) t"
  let ?f = "func_of_match t m"
  from assms(1) have rec: "?f \<in> set (def_records t)"
    by (simp add: def_records_def)
  from def_body(1,3,4) [OF assms] have cnt: "body ?f = strip b" "0 \<le> d"
    "int (count_list (body ?f) CHR ''{'') = int (count_list (body ?f) CHR ''}'') + d"
    by simp_all
  from def_match_brace [OF assms(1)] have dr: "?s = CHR ''{'' # m_rest m" .
  from assms(2) dr have "scan_body 0 [] (CHR ''{'' # m_rest m) = (b, d)" by simp
  from scan_from_brace [OF this] dr
  have "(\<exists>k. closes_at ?s k \<and> b = take k ?s \<and> d = 0 \<and> last b = CHR ''}'') \<or>
        ((\<forall>k. \<not> closes_at ?s k) \<and> b = ?s \<and> 0 < d)"
    by simp
  then have "(\<forall>k. closes_at ?s k \<longrightarrow> d = 0 \<and> body ?f = take k ?s) \<and>
             ((\<forall>k. \<not> closes_at ?s k) \<longrightarrow> 0 < d \<and> body ?f = strip ?s)"
  proof (elim disjE exE conjE)
    fix k
    assume k: "closes_at ?s k" "b = take k ?s" "d = 0" "last b = CHR ''}''"
    from k(1) have "0 < k" by (simp add: closes_at_def)
    with k(2) dr have "b \<noteq> []" "hd b = CHR ''{''" by (cases k; simp)+
    from strip_braced [OF this k(4)] cnt(1) have bf: "body ?f = b" by simp
    have "d = 0 \<and> body ?f = take k' ?s" if "closes_at ?s k'" for k'
      using closes_at_unique [OF that k(1)] bf k(2,3) by simp
    with k(1) show ?thesis by blast
  next
    assume a: "\<forall>k. \<not> closes_at ?s k" "b = ?s" "0 < d"
    with cnt(1) show ?thesis by simp
  qed
  with rec cnt(2,3) dr show ?thesis by simp
qed

theorem C4_body_brace_counts_witness:
  "closes_at (drop (m_end (hd (finditer func_def_pattern 0 True ''de f(){{}} x'')) - 1) ''de f(){{}} x'') 4 \<and>
   func_of_match ''de f(){{}} x'' (hd (finditer func_def_pattern 0 True ''de f(){{}} x''))
     \<in> set (def_records ''de f(){{}} x'') \<and>
   body (func_of_match ''de f(){{}} x'' (hd (finditer func_def_pattern 0 True ''de f(){{}} x''))) =
     ''{{}}'' \<and>
   int (count_list ''{{}}'' CHR ''{'') = int (count_list ''{{}}'' CHR ''}'') + 0 \<and>
   list_all (\<lambda>k. \<not> closes_at (drop (m_end (hd (finditer func_def_pattern 0 True ''de f(){ { } x'')) - 1) ''de f(){ { } x'') k)
     [0..<8] \<and>
   body (func_of_match ''de f(){ { } x'' (hd (finditer func_def_pattern 0 True ''de f(){ { } x''))) =
     ''{ { } x'' \<and>
   int (count_list ''{ { } x'' CHR ''{'') = int (count_list ''{ { } x'' CHR ''}'') + 1"
proof -
  let ?t = "''de f(){{}} x''"
  let ?m = "hd (finditer func_def_pattern 0 True ?t)"
  have "finditer func_def_pattern 0 True ?t \<noteq> []" by code_simp
  then have m: "?m \<in> set (finditer func_def_pattern 0 True ?t)" by (rule hd_in_set)
  have sc: "scan_body 0 [] (drop (m_end ?m - 1) ?t) = (''{{}}'', 0)" by code_simp
  have cl: "closes_at (drop (m_end ?m - 1) ?t) 4" by code_simp
  have tk: "take 4 (drop (m_end ?m - 1) ?t) = ''{{}}''" by code_simp
  from C4_body_brace_counts [OF m sc] cl tk have closed:
    "func_of_match ?t ?m \<in> set (def_records ?t) \<and> body (func_of_match ?t ?m) = ''{{}}'' \<and>
     int (count_list ''{{}}'' CHR ''{'') = int (count_list ''{{}}'' CHR ''}'') + 0"
    by simp
  let ?u = "''de f(){ { } x''"
  let ?n = "hd (finditer func_def_pattern 0 True ?u)"
  let ?s = "drop (m_end ?n - 1) ?u"
  have "finditer func_def_pattern 0 True ?u \<noteq> []" by code_simp
  then have n: "?n \<in> set (finditer func_def_pattern 0 True ?u)" by (rule hd_in_set)
  have sc': "scan_body 0 [] ?s = (''{ { } x'', 1)" by code_simp
  have la: "list_all (\<lambda>k. \<not> closes_at ?s k) [0..<8]" by code_simp
  have len: "length ?s = 7" by code_simp
  have nc: "\<not> closes_at ?s k" for k
  proof
    assume c: "closes_at ?s k"
    then have "k \<le> length ?s" unfolding closes_at_def by blast
    with len have kin: "k \<in> set [0..<8]" unfolding set_upt by simp
    from la have "\<forall>x\<in>set [0..<8]. \<not> closes_at ?s x" unfolding list_all_iff .
    from bspec [OF this kin] c show False by (rule notE)
  qed
  have st: "strip ?s = ''{ { } x''" by code_simp
  from C4_body_brace_counts [OF n sc'] nc st have
    "body (func_of_match ?u ?n) = ''{ { } x'' \<and>
     int (count_list ''{ { } x'' CHR ''{'') = int (count_list ''{ { } x'' CHR ''}'') + 1"
    by simp
  with cl closed la show ?thesis by blast
qed

theorem C4_counterexample:
  "map body (apis (parse_with_regex ''de f(){ {'')) = [''{ {''] \<and>
   count_list ''{ {'' CHR ''{'' = 2 \<and> count_list ''{ {'' CHR ''}'' = 0"
  by code_simp

fun touches :: "nat \<Rightarrow> item \<Rightarrow> bool" where
  "touches n (Grp k ys) = (k = n \<or> (\<exists>y\<in>set ys. touches n y))"
| "touches n (Opt ys) = (\<exists>y\<in>set ys. touches n y)"
| "touches n (End k st) = (k = n)"
| "touches n x = False"

definition is_ident :: "string \<Rightarrow> bool" where
  "is_ident s = (case s of [] \<Rightarrow> False | x # xs \<Rightarrow> is_ident_start x \<and> list_all is_word xs)"

lemma bt_untouched:
  "bt r i bl s c = Some (e, bl', s', c') \<Longrightarrow> \<forall>x\<in>set r. \<not> touches n x \<Longrightarrow> c' n = c n"
  by (induction r i bl s c rule: bt.induct) (auto split: if_splits option.splits)

lemma star_group_capture:
  "bt (Star True w # End n st # r) i bl s c = Some (e, bl', s', c') \<Longrightarrow>
   \<forall>x\<in>set r. \<not> touches n x \<Longrightarrow> st = pre @ s \<Longrightarrow>
   \<exists>u. c' n = Some (pre @ u) \<and> list_all w u"
proof (induction s arbitrary: i bl pre)
  case Nil
  then have "bt r i bl [] (c(n \<mapsto> pre)) = Some (e, bl', s', c')" by simp
  from bt_untouched [OF this Nil(2)] show ?case by (intro exI [of _ "[]"]) simp
next
  case (Cons x xs)
  have fall: "bt (End n st # r) i bl (x # xs) c = Some (e, bl', s', c') \<Longrightarrow> ?case"
  proof -
    assume "bt (End n st # r) i bl (x # xs) c = Some (e, bl', s', c')"
    with Cons(4) have "bt r i bl (x # xs) (c(n \<mapsto> pre)) = Some (e, bl', s', c')" by simp
    from bt_untouched [OF this Cons(3)] show ?case by (intro exI [of _ "[]"]) simp
  qed
  show ?case
  proof (cases "w x")
    case False
    with Cons(2) fall show ?thesis by simp
  next
    case True
    show ?thesis
    proof (cases "bt (Star True w # End n st # r) (Suc i) (x = nl) xs c")
      case None
      with Cons(2) True fall show ?thesis by simp
    next
      case (Some m)
      with Cons(2) True have
        a: "bt (Star True w # End n st # r) (Suc i) (x = nl) xs c = Some (e, bl', s', c')" by simp
      from Cons(4) have "st = (pre @ [x]) @ xs" by simp
      from Cons(1) [OF a Cons(3) this] obtain u where
        "c' n = Some ((pre @ [x]) @ u)" "list_all w u" by blast
      with True show ?thesis by (intro exI [of _ "x # u"]) simp
    qed
  qed
qed

lemma ident_group_capture:
  assumes "bt (Grp n [Ch is_ident_start, Star True is_word] # r) i bl s c = Some (e, bl', s', c')"
    and "\<forall>x\<in>set r. \<not> touches n x"
  shows "\<exists>g. c' n = Some g \<and> is_ident g"
proof (cases s)
  case Nil
  with assms(1) show ?thesis by simp
next
  case (Cons x xs)
  with assms(1) have x: "is_ident_start x"
    and a: "bt (Star True is_word # End n (x # xs) # r) (Suc i) (x = nl) xs c = Some (e, bl', s', c')"
    by (auto split: if_splits)
  from star_group_capture [OF a assms(2), of "[x]"] obtain u where
    "c' n = Some (x # u)" "list_all is_word u" by auto
  with x show ?thesis by (simp add: is_ident_def)
qed

lemma pattern_ident_group:
  assumes "m \<in> set (finditer (xs @ Grp n [Ch is_ident_start, Star True is_word] # r) 0 True t)"
    and "\<forall>x\<in>set r. \<not> touches n x"
  shows "\<exists>g. m_caps m n = Some g \<and> is_ident g"
proof -
  let ?g = "Grp n [Ch is_ident_start, Star True is_word]"
  from finditer_mem [OF assms(1)] obtain bl' where
    "match_at (xs @ ?g # r) (m_start m) bl' (drop (m_start m) t) = Some m" by auto
  from bt_split [OF match_at_bt [OF this] refl] obtain i2 bl2 s2 c2 where
    "bt (?g # r) i2 bl2 s2 c2 = Some (m_end m, m_bol m, m_rest m, m_caps m)"
    unfolding reach_def by blast
  from ident_group_capture [OF this assms(2)] show ?thesis .
qed

lemma enum_pattern_split:
  "enum_pattern =
     (lits ''typedef'' @ [Ch is_space, Star True is_space] @ lits ''enum'' @
      [Star True is_space, Opt [Star True is_word, Star True is_space],
       Ch (lit CHR ''{''), Grp 1 [Star False any_char], Ch (lit CHR ''}''), Star True is_space]) @
     Grp 2 [Ch is_ident_start, Star True is_word] # [Star True is_space, Ch (lit CHR '';'')]"
  by (simp add: enum_pattern_def)

lemma struct_pattern_split:
  "struct_pattern =
     (lits ''typedef'' @ [Ch is_space, Star True is_space] @ lits ''struct'' @
      [Star True is_space, Opt [Ch is_ident_start, Star True is_word, Star True is_space],
       Ch (lit CHR ''{''), Grp 1 [Star False any_char], Ch (lit CHR ''}''), Star True is_space]) @
     Grp 2 [Ch is_ident_start, Star True is_word] # [Star True is_space, Ch (lit CHR '';'')]"
  by (simp add: struct_pattern_def)

lemma types_parse:
  "types (parse_with_regex src) =
     enum_records (strip_comments src) @ struct_records (strip_comments src)"
  by (simp add: parse_with_regex_def Let_def)

text \<open>
  Claim C9. Every TypeRecord of the regex-based parser has a \<open>typedef_name\<close> that is
  present and is a non-empty identifier: a character of \<open>[A-Za-z_]\<close> followed by
  characters of \<open>\w\<close>. It is the second group of the enum or struct pattern, which every
  match has to fill before the semicolon.
\<close>

theorem C9_typedef_name_is_identifier:
  assumes "t \<in> set (types (parse_with_regex src))"
  shows "\<exists>n. typedef_name t = Some n \<and> is_ident n"
proof -
  from assms consider
    m where "m \<in> set (finditer enum_pattern 0 True (strip_comments src))" "t = enum_of_match m"
  | m where "m \<in> set (finditer struct_pattern 0 True (strip_comments src))" "t = struct_of_match m"
    by (auto simp: types_parse enum_records_def struct_records_def)
  then show ?thesis
  proof cases
    case 1
    from 1(1) have "\<exists>g. m_caps m 2 = Some g \<and> is_ident g"
      unfolding enum_pattern_split by (rule pattern_ident_group) simp
    with 1(2) show ?thesis by (simp add: enum_of_match_def Let_def)
  next
    case 2
    from 2(1) have "\<exists>g. m_caps m 2 = Some g \<and> is_ident g"
      unfolding struct_pattern_split by (rule pattern_ident_group) simp
    with 2(2) show ?thesis by (simp add: struct_of_match_def Let_def)
  qed
qed

theorem C9_typedef_name_is_identifier_witness:
  "\<lparr>typedef_name = Some ''E'', kind = ''enum'', num_members = 1, members = [''b''],
     type_comment = ''STRUCT & ENUM = defined with name E and have 1 members''\<rparr>
     \<in> set (types (parse_with_regex ''typedef enum{b}E;'')) \<and>
   (\<exists>n. typedef_name \<lparr>typedef_name = Some ''E'', kind = ''enum'', num_members = 1, members = [''b''],
     type_comment = ''STRUCT & ENUM = defined with name E and have 1 members''\<rparr> = Some n \<and> is_ident n)"
proof -
  have mem: "\<lparr>typedef_name = Some ''E'', kind = ''enum'', num_members = 1, members = [''b''],
     type_comment = ''STRUCT & ENUM = defined with name E and have 1 members''\<rparr>
     \<in> set (types (parse_with_regex ''typedef enum{b}E;''))"
    by code_simp
  from C9_typedef_name_is_identifier [OF mem] mem show ?thesis by blast
qed

lemma sorted_wrt_map_filter:
  "sorted_wrt (<) (map f xs) \<Longrightarrow> sorted_wrt (<) (map f (filter P xs))"
  by (induction xs) auto

text \<open>
  Claim C6, as amended. Within each pass the records follow the order of the matches in
  the comment-stripped text, whose start positions increase strictly: the macros; the enum
  records; the struct records; the definition records; the prototype records. The type
  collection is all enum records followed by all struct records, the function collection
  all definition records followed by the prototype records whose name no definition has:
  between the two passes of one collection the order is by pass, not by position.
\<close>

theorem C6_order_by_pass_then_position:
  "macros (parse_with_regex src) =
     map macro_of_match (finditer macro_pattern 0 True (strip_comments src)) \<and>
   types (parse_with_regex src) =
     map enum_of_match (finditer enum_pattern 0 True (strip_comments src)) @
     map struct_of_match (finditer struct_pattern 0 True (strip_comments src)) \<and>
   apis (parse_with_regex src) =
     map (func_of_match (strip_comments src))
       (finditer func_def_pattern 0 True (strip_comments src)) @
     map proto_of_match
       (filter (\<lambda>m. group m 2 \<notin> set (map fn_name (def_records (strip_comments src))))
          (finditer proto_pattern 0 True (strip_comments src))) \<and>
   sorted_wrt (<) (map m_start (finditer macro_pattern 0 True (strip_comments src))) \<and>
   sorted_wrt (<) (map m_start (finditer enum_pattern 0 True (strip_comments src))) \<and>
   sorted_wrt (<) (map m_start (finditer struct_pattern 0 True (strip_comments src))) \<and>
   sorted_wrt (<) (map m_start (finditer func_def_pattern 0 True (strip_comments src))) \<and>
   sorted_wrt (<) (map m_start
     (filter (\<lambda>m. group m 2 \<notin> set (map fn_name (def_records (strip_comments src))))
        (finditer proto_pattern 0 True (strip_comments src))))"
proof -
  have "macros (parse_with_regex src) =
          map macro_of_match (finditer macro_pattern 0 True (strip_comments src))"
    by (simp add: parse_with_regex_def Let_def macro_records_def)
  moreover have "types (parse_with_regex src) =
     map enum_of_match (finditer enum_pattern 0 True (strip_comments src)) @
     map struct_of_match (finditer struct_pattern 0 True (strip_comments src))"
    by (simp add: types_parse enum_records_def struct_records_def)
  moreover have "def_records (strip_comments src) =
     map (func_of_match (strip_comments src))
       (finditer func_def_pattern 0 True (strip_comments src))"
    by (simp add: def_records_def)
  then have "apis (parse_with_regex src) =
     map (func_of_match (strip_comments src))
       (finditer func_def_pattern 0 True (strip_comments src)) @
     map proto_of_match
       (filter (\<lambda>m. group m 2 \<notin> set (map fn_name (def_records (strip_comments src))))
          (finditer proto_pattern 0 True (strip_comments src)))"
    unfolding apis_parse proto_records_def Let_def by simp
  ultimately show ?thesis
    by (simp add: finditer_sorted sorted_wrt_map_filter)
qed

theorem C6_counterexample:
  "map typedef_name (types (parse_with_regex ''typedef struct{a;}S;typedef enum{b}E;'')) =
     [Some ''E'', Some ''S'']"
  by code_simp

text \<open>
  Claim C8 fails on the code: the pattern's \<open>\s+\<close> between the name and the value also
  matches a newline, so a \<open>#define\<close> line without a value takes the next line as its
  value. Here the line \<open>#define B 1\<close> is swallowed: one record, named \<open>A\<close>, and none
  for \<open>B\<close>.
\<close>

theorem C8_define_line_swallowed:
  "macros (parse_with_regex (''#define A'' @ [nl] @ ''#define B 1'')) =
     [\<lparr>macro_name = ''A'', macro_value = ''#define B 1'',
        macro_comment = ''MACROS = macro defined with name A and value #define B 1''\<rparr>]"
  by code_simp

text \<open>
  The argument splitter as the specification words it: the parenthesis depth of a position
  is the number of \<open>(\<close> minus the number of \<open>)\<close> before it, a top-level comma is a
  comma at depth zero, and the text is cut at the top-level commas and nowhere else.
\<close>

definition depth_of :: "string \<Rightarrow> int" where
  "depth_of s = int (count_list s CHR ''('') - int (count_list s CHR '')'')"

definition top_comma :: "string \<Rightarrow> nat \<Rightarrow> bool" where
  "top_comma t k = (k < length t \<and> t ! k = CHR '','' \<and> depth_of (take k t) = 0)"

text \<open>\<open>slices i ks t\<close>: the pieces of \<open>t\<close> from position \<open>i\<close> on, cut at the
  positions \<open>ks\<close> (which are left out).\<close>

fun slices :: "nat \<Rightarrow> nat list \<Rightarrow> string \<Rightarrow> string list" where
  "slices i [] t = [drop i t]"
| "slices i (k # ks) t = take (k - i) (drop i t) # slices (Suc k) ks t"

definition top_pieces :: "string \<Rightarrow> string list" where
  "top_pieces t = slices 0 (filter (top_comma t) [0..<length t]) t"

lemma slices_nonempty: "slices i ks t \<noteq> []"
  by (cases ks) auto

lemma depth_of_snoc:
  "depth_of (pre @ [c]) =
     (if c = CHR ''('' then depth_of pre + 1 else if c = CHR '')'' then depth_of pre - 1
      else depth_of pre)"
  by (simp add: depth_of_def)

lemma split_loop_slices:
  assumes "t = pre @ cs" and "i \<le> length pre"
  shows "split_loop as (depth_of pre) (drop i pre) cs =
           (as @ map strip (butlast (slices i (filter (top_comma t) [length pre..<length t]) t)),
            depth_of t,
            last (slices i (filter (top_comma t) [length pre..<length t]) t))"
  using assms
proof (induction cs arbitrary: pre as i)
  case Nil
  then show ?case by simp
next
  case (Cons c cs)
  have t: "t = (pre @ [c]) @ cs" using Cons(2) by simp
  have "length pre < length t" using Cons(2) by simp
  from upt_conv_Cons [OF this]
  have upt: "[length pre..<length t] = length pre # [length (pre @ [c])..<length t]"
    by simp
  have tc: "top_comma t (length pre) \<longleftrightarrow> (c = CHR '','' \<and> depth_of pre = 0)"
    using Cons(2) by (simp add: top_comma_def)
  show ?case
  proof (cases "c = CHR '','' \<and> depth_of pre = 0")
    case True
    have cur: "take (length pre - i) (drop i t) = drop i pre"
      using Cons(2,3) by simp
    have "split_loop as (depth_of pre) (drop i pre) (c # cs) =
            split_loop (as @ [strip (drop i pre)]) (depth_of (pre @ [c]))
              (drop (length (pre @ [c])) (pre @ [c])) cs"
      using True by (simp add: depth_of_snoc)
    also have "\<dots> =
       ((as @ [strip (drop i pre)]) @
          map strip (butlast (slices (length (pre @ [c]))
             (filter (top_comma t) [length (pre @ [c])..<length t]) t)),
        depth_of t,
        last (slices (length (pre @ [c]))
             (filter (top_comma t) [length (pre @ [c])..<length t]) t))"
      by (rule Cons(1) [OF t]) simp
    finally have run: "split_loop as (depth_of pre) (drop i pre) (c # cs) =
       ((as @ [strip (drop i pre)]) @
          map strip (butlast (slices (length (pre @ [c]))
             (filter (top_comma t) [length (pre @ [c])..<length t]) t)),
        depth_of t,
        last (slices (length (pre @ [c]))
             (filter (top_comma t) [length (pre @ [c])..<length t]) t))" .
    have fl: "filter (top_comma t) [length pre..<length t] =
                length pre # filter (top_comma t) [length (pre @ [c])..<length t]"
      unfolding upt using True tc by simp
    show ?thesis
      unfolding fl run using cur by (simp add: slices_nonempty)
  next
    case False
    have "split_loop as (depth_of pre) (drop i pre) (c # cs) =
            split_loop as (depth_of (pre @ [c])) (drop i (pre @ [c])) cs"
      using False Cons(3) by (auto simp: depth_of_snoc)
    also have "\<dots> =
       (as @ map strip (butlast (slices i
             (filter (top_comma t) [length (pre @ [c])..<length t]) t)),
        depth_of t,
        last (slices i (filter (top_comma t) [length (pre @ [c])..<length t]) t))"
      using Cons(3) by (intro Cons(1) [OF t]) simp
    finally have run: "split_loop as (depth_of pre) (drop i pre) (c # cs) =
       (as @ map strip (butlast (slices i
             (filter (top_comma t) [length (pre @ [c])..<length t]) t)),
        depth_of t,
        last (slices i (filter (top_comma t) [length (pre @ [c])..<length t]) t))" .
    have fl: "filter (top_comma t) [length pre..<length t] =
                filter (top_comma t) [length (pre @ [c])..<length t]"
      unfolding upt using False tc by simp
    show ?thesis unfolding fl run ..
  qed
qed

lemma split_loop_top_pieces:
  "split_loop [] 0 [] t = (map strip (butlast (top_pieces t)), depth_of t, last (top_pieces t))"
  using split_loop_slices [of t "[]" t 0 "[]"] by (simp add: top_pieces_def depth_of_def)

lemma top_pieces_nonempty: "top_pieces t \<noteq> []"
  by (simp add: top_pieces_def slices_nonempty)

text \<open>
  Claim C7. The argument splitter cuts the (trimmed) parameter list at the commas of
  parenthesis depth zero and nowhere else: its tokens are the trimmed pieces between the
  top-level commas, a blank last piece left out. An empty or all-blank text, or the single
  word \<open>void\<close> in any letter case, gives no argument. On \<open>int a, int (*cb)(int, int)\<close>
  it gives exactly two records.
\<close>

theorem C7_split_at_top_level_commas:
  "split_args s =
     map (\<lambda>a. \<lparr>a_raw = a, a_type = fst (split_type_name a), a_name = snd (split_type_name a)\<rparr>)
       (if strip s = [] \<or> lower (strip s) = ''void'' then []
        else (let ps = map strip (top_pieces (strip s))
              in if last ps \<noteq> [] then ps else butlast ps)) \<and>
   split_args [] = [] \<and>
   split_args '' VoiD '' = [] \<and>
   split_args ''int a, int (*cb)(int, int)'' =
     [\<lparr>a_raw = ''int a'', a_type = ''int'', a_name = ''a''\<rparr>,
      \<lparr>a_raw = ''int (*cb)(int, int)'', a_type = ''int (*cb)(int,'', a_name = ''int)''\<rparr>]"
proof -
  let ?mk = "\<lambda>a. \<lparr>a_raw = a, a_type = fst (split_type_name a), a_name = snd (split_type_name a)\<rparr>"
  let ?t = "strip s"
  let ?ps = "map strip (top_pieces ?t)"
  have bl: "butlast ?ps = map strip (butlast (top_pieces ?t))"
    by (simp add: map_butlast)
  have la: "last ?ps = strip (last (top_pieces ?t))"
    by (simp add: last_map top_pieces_nonempty)
  have "?ps \<noteq> []" by (simp add: top_pieces_nonempty)
  then have "butlast ?ps @ [last ?ps] = ?ps" by (rule append_butlast_last_id)
  then have ap: "map strip (butlast (top_pieces ?t)) @ [strip (last (top_pieces ?t))] = ?ps"
    by (simp only: bl la)
  have gen: "split_args s =
     map ?mk (if ?t = [] \<or> lower ?t = ''void'' then []
        else (let ps = ?ps in if last ps \<noteq> [] then ps else butlast ps))"
    unfolding split_args_def Let_def split_loop_top_pieces
    by (simp only: prod.case la bl ap split: if_splits) (simp add: case_prod_beta)
  have e1: "split_args [] = []"
    by (simp add: split_args_def strip_def strip_with_def)
  have e2: "split_args '' VoiD '' = []"
    by code_simp
  have e3: "split_args ''int a, int (*cb)(int, int)'' =
     [\<lparr>a_raw = ''int a'', a_type = ''int'', a_name = ''a''\<rparr>,
      \<lparr>a_raw = ''int (*cb)(int, int)'', a_type = ''int (*cb)(int,'', a_name = ''int)''\<rparr>]"
    by (simp add: split_args_def strip_def strip_with_def is_space_def lower_def lower_char_def
          split_type_name_def rsplit1_def)
  from gen e1 e2 e3 show ?thesis by (intro conjI)
qed

text \<open>Texts with a line comment opener, with a block comment closer, with a whole block
  comment: what the two patterns of \<open>strip_comments\<close> look for.\<close>

fun has_dslash :: "string \<Rightarrow> bool" where
  "has_dslash (x # y # zs) = ((x = CHR ''/'' \<and> y = CHR ''/'') \<or> has_dslash (y # zs))"
| "has_dslash [x] = False"
| "has_dslash [] = False"

fun has_close :: "string \<Rightarrow> bool" where
  "has_close (x # y # zs) = ((x = CHR ''*'' \<and> y = CHR ''/'') \<or> has_close (y # zs))"
| "has_close [x] = False"
| "has_close [] = False"

fun has_block :: "string \<Rightarrow> bool" where
  "has_block (x # y # zs) = ((x = CHR ''/'' \<and> y = CHR ''*'' \<and> has_close zs) \<or> has_block (y # zs))"
| "has_block [x] = False"
| "has_block [] = False"

text \<open>What \<open>re.sub(pattern_line, '', s)\<close> computes, written as a direct recursion.\<close>

function strip_line :: "string \<Rightarrow> string" where
  "strip_line [] = []"
| "strip_line [x] = [x]"
| "strip_line (x # y # zs) =
     (if x = CHR ''/'' \<and> y = CHR ''/'' then strip_line (dropWhile not_nl zs)
      else x # strip_line (y # zs))"
  by pat_completeness auto
termination
  by (relation "measure length") (auto simp: less_Suc_eq_le intro: le_SucI length_dropWhile_le)

lemma search_Ch_nonempty:
  assumes "search (Ch p # r) i bl s = Some m"
  shows "m_start m < m_end m"
proof -
  from search_match [OF assms] obtain bl' where
    "match_at (Ch p # r) (m_start m) bl' (drop (m_start m - i) s) = Some m" by blast
  from match_at_bt [OF this] obtain x xs where
    "bt r (Suc (m_start m)) (x = nl) xs Map.empty = Some (m_end m, m_bol m, m_rest m, m_caps m)"
    by (cases "drop (m_start m - i) s") (auto split: if_splits)
  from bt_length [OF this] show ?thesis by simp
qed

lemma cut_finditer_None:
  "search r i bl s = None \<Longrightarrow> cut_matches i s (finditer r i bl s) = s"
  by (simp add: finditer_None)

lemma cut_finditer_Some:
  assumes "search r i bl s = Some m" and "m_start m < m_end m"
  shows "cut_matches i s (finditer r i bl s) =
           take (m_start m - i) s @
           cut_matches (m_end m) (m_rest m) (finditer r (m_end m) (m_bol m) (m_rest m))"
  using assms search_rest [OF assms(1)] by (simp add: finditer_Some)

lemma cut_finditer_length:
  "length (cut_matches i s (finditer (Ch p # r) i bl s)) \<le> length s \<and>
   (search (Ch p # r) i bl s \<noteq> None \<longrightarrow>
      length (cut_matches i s (finditer (Ch p # r) i bl s)) < length s)"
proof (induction "length s" arbitrary: i bl s rule: less_induct)
  case less
  show ?case
  proof (cases "search (Ch p # r) i bl s")
    case None
    then show ?thesis by (simp add: cut_finditer_None)
  next
    case (Some m)
    note ne = search_Ch_nonempty [OF Some]
    note len = search_length [OF Some]
    from ne len have "length (m_rest m) < length s" by simp
    from less [OF this] have
      "length (cut_matches (m_end m) (m_rest m) (finditer (Ch p # r) (m_end m) (m_bol m) (m_rest m)))
         \<le> length (m_rest m)" by blast
    then have
      "m_start m - i +
       length (cut_matches (m_end m) (m_rest m) (finditer (Ch p # r) (m_end m) (m_bol m) (m_rest m)))
       < length s"
      using ne len by linarith
    moreover have "m_start m - i \<le> length s" using ne len by linarith
    ultimately show ?thesis
      by (simp add: cut_finditer_Some [OF Some ne] Some min_absorb2)
  qed
qed

lemma lazy_eol:
  "bt [Star False not_nl, Eol] i bl s c =
     Some (i + length (takeWhile not_nl s),
           (if takeWhile not_nl s = [] then bl else False),
           dropWhile not_nl s, c)"
proof (induction s arbitrary: i bl)
  case Nil
  show ?case by simp
next
  case (Cons x xs)
  show ?case
  proof (cases "x = nl")
    case True
    then show ?thesis by (simp add: not_nl_def)
  next
    case False
    with Cons [of "Suc i" "x = nl"] show ?thesis by (simp add: not_nl_def)
  qed
qed

lemma search_line_Nil: "search pattern_line i bl [] = None"
  by (simp add: match_at_def pattern_line_def)

lemma search_line_single: "search pattern_line i bl [x] = None"
  by (simp add: match_at_def pattern_line_def)

lemma search_line_hit:
  "search pattern_line i bl (CHR ''/'' # CHR ''/'' # zs) =
     Some \<lparr>m_start = i, m_end = Suc (Suc i) + length (takeWhile not_nl zs), m_bol = False,
           m_rest = dropWhile not_nl zs, m_caps = Map.empty\<rparr>"
  using lazy_eol [of "Suc (Suc i)" False zs Map.empty]
  by (simp add: match_at_def pattern_line_def lit_def nl_def)

lemma search_line_miss:
  "\<not> (x = CHR ''/'' \<and> y = CHR ''/'') \<Longrightarrow>
     search pattern_line i bl (x # y # zs) = search pattern_line (Suc i) (x = nl) (y # zs)"
  by (auto simp: match_at_def pattern_line_def lit_def)

lemma finditer_cong_search:
  "search r i bl s = search r i' bl' s' \<Longrightarrow> finditer r i bl s = finditer r i' bl' s'"
  by (subst (1 2) finditer.simps) simp

lemma cut_shift:
  assumes "\<forall>m\<in>set ms. Suc i \<le> m_start m \<and> m_start m \<le> m_end m"
  shows "cut_matches i (x # xs) ms = x # cut_matches (Suc i) xs ms"
proof (cases ms)
  case Nil
  then show ?thesis by simp
next
  case (Cons m ms')
  with assms have a: "Suc i \<le> m_start m" "Suc i \<le> m_end m" by auto
  from a(1) have "m_start m - i = Suc (m_start m - Suc i)" by simp
  then have "take (m_start m - i) (x # xs) = x # take (m_start m - Suc i) xs" by simp
  with Cons drop_adv [OF a(2), of x xs] show ?thesis by simp
qed

lemma finditer_span:
  assumes "m \<in> set (finditer r i bl s)"
  shows "i \<le> m_start m \<and> m_start m \<le> m_end m"
proof -
  from finditer_mem [OF assms] obtain bl' where
    "i \<le> m_start m" "match_at r (m_start m) bl' (drop (m_start m - i) s) = Some m" by blast
  with match_at_length [of r "m_start m" bl' "drop (m_start m - i) s" m] show ?thesis by simp
qed

lemma sub_line:
  "cut_matches i s (finditer pattern_line i bl s) = strip_line s"
proof (induction s arbitrary: i bl rule: strip_line.induct)
  case 1
  from cut_finditer_None [OF search_line_Nil] show ?case by simp
next
  case (2 x)
  from cut_finditer_None [OF search_line_single] show ?case by simp
next
  case (3 x y zs)
  show ?case
  proof (cases "x = CHR ''/'' \<and> y = CHR ''/''")
    case True
    define b where "b = False"
    from search_line_hit [of i bl zs] have
      s: "search pattern_line i bl (CHR ''/'' # CHR ''/'' # zs) =
            Some \<lparr>m_start = i, m_end = Suc (Suc i) + length (takeWhile not_nl zs), m_bol = b,
                  m_rest = dropWhile not_nl zs, m_caps = Map.empty\<rparr>" by (simp add: b_def)
    have "cut_matches i (CHR ''/'' # CHR ''/'' # zs)
            (finditer pattern_line i bl (CHR ''/'' # CHR ''/'' # zs)) =
          cut_matches (Suc (Suc i) + length (takeWhile not_nl zs)) (dropWhile not_nl zs)
            (finditer pattern_line (Suc (Suc i) + length (takeWhile not_nl zs)) b
               (dropWhile not_nl zs))"
      by (subst cut_finditer_Some [OF s]) simp_all
    with 3(1) [OF True] True show ?thesis by simp
  next
    case False
    let ?ms = "finditer pattern_line (Suc i) (x = nl) (y # zs)"
    from search_line_miss [OF False] have
      "finditer pattern_line i bl (x # y # zs) = ?ms" by (rule finditer_cong_search)
    moreover have "\<forall>m\<in>set ?ms. Suc i \<le> m_start m \<and> m_start m \<le> m_end m"
      using finditer_span by blast
    ultimately have "cut_matches i (x # y # zs) (finditer pattern_line i bl (x # y # zs)) =
      x # cut_matches (Suc i) (y # zs) ?ms" by (simp add: cut_shift)
    moreover from False have "strip_line (x # y # zs) = x # strip_line (y # zs)" by auto
    ultimately show ?thesis using 3(2) [OF False] by simp
  qed
qed

lemma strip_line_hd: "y \<noteq> CHR ''/'' \<Longrightarrow> strip_line (y # zs) = y # strip_line zs"
  by (cases zs) auto

lemma strip_line_no_dslash: "\<not> has_dslash (strip_line s)"
proof (induction s rule: strip_line.induct)
  case (3 x y zs)
  show ?case
  proof (cases "x = CHR ''/'' \<and> y = CHR ''/''")
    case True
    with 3(1) show ?thesis by simp
  next
    case False
    note ih = 3(2) [OF False]
    show ?thesis
    proof (cases "x = CHR ''/''")
      case True
      with False have "y \<noteq> CHR ''/''" by simp
      from strip_line_hd [OF this] ih True \<open>y \<noteq> CHR ''/''\<close> show ?thesis by simp
    next
      case F: False
      with ih show ?thesis by (cases "strip_line (y # zs)") auto
    qed
  qed
qed simp_all

lemma strip_line_id: "\<not> has_dslash s \<Longrightarrow> strip_line s = s"
  by (induction s rule: strip_line.induct) auto

lemma strip_line_length: "length (strip_line s) \<le> length s"
proof (induction s rule: strip_line.induct)
  case (3 x y zs)
  then show ?case
    using length_dropWhile_le [of not_nl zs] by (auto intro: le_SucI)
qed simp_all

lemma lazy_close:
  "bt [Star False any_char, Ch (lit CHR ''*''), Ch (lit CHR ''/'')] i bl s c \<noteq> None
     \<longleftrightarrow> has_close s"
  by (induction s arbitrary: i bl rule: has_close.induct)
     (auto simp: lit_def any_char_def split: option.splits)

lemma match_block:
  "match_at pattern_block i bl s \<noteq> None \<longleftrightarrow>
     (\<exists>zs. s = CHR ''/'' # CHR ''*'' # zs \<and> has_close zs)"
proof (cases s)
  case Nil
  then show ?thesis by (simp add: match_at_def pattern_block_def)
next
  case (Cons x xs)
  show ?thesis
  proof (cases xs)
    case Nil
    with Cons show ?thesis by (simp add: match_at_def pattern_block_def)
  next
    case (Cons y zs)
    with \<open>s = x # xs\<close> lazy_close [of "Suc (Suc i)" False zs Map.empty] show ?thesis
      by (auto simp: match_at_def pattern_block_def lit_def nl_def split: option.splits)
  qed
qed

lemma search_block: "search pattern_block i bl s \<noteq> None \<longleftrightarrow> has_block s"
proof (induction s arbitrary: i bl rule: has_block.induct)
  case (1 x y zs)
  from match_block [of i bl "x # y # zs"] 1 [of "Suc i" "x = nl"] show ?case
    by (auto split: option.splits)
next
  case (2 v)
  from match_block [of i bl "[v]"] match_block [of "Suc i" "v = nl" "[]"] show ?case
    by (auto split: option.splits)
next
  case 3
  from match_block [of i bl "[]"] show ?case by simp
qed

lemma sub_line_eq: "re_sub_empty pattern_line s = strip_line s"
  by (simp add: re_sub_empty_def sub_line)

lemma sub_block_id: "\<not> has_block s \<Longrightarrow> re_sub_empty pattern_block s = s"
  using search_block [of 0 True s] by (simp add: re_sub_empty_def cut_finditer_None)

lemma sub_block_shorter: "has_block s \<Longrightarrow> length (re_sub_empty pattern_block s) < length s"
  using search_block [of 0 True s]
    cut_finditer_length [of 0 s "lit CHR ''/''"
      "[Ch (lit CHR ''*''), Star False any_char, Ch (lit CHR ''*''), Ch (lit CHR ''/'')]" True]
  by (simp add: re_sub_empty_def pattern_block_def)

lemma strip_comments_eq: "strip_comments s = strip_line (re_sub_empty pattern_block s)"
  by (simp add: strip_comments_def sub_line_eq)

text \<open>
  Claim C5, as amended. Stripping the comments a second time changes nothing exactly when
  the text stripped once holds no block comment any more, that is no \<open>/*\<close> followed later
  by \<open>*/\<close>. (Cutting a block comment out can join a \<open>/\<close> before it and a \<open>*\<close> after it
  into a new opener, which the first pass does not look at again.)
\<close>

theorem C5_idempotent_iff_no_block_left:
  "strip_comments (strip_comments s) = strip_comments s \<longleftrightarrow> \<not> has_block (strip_comments s)"
proof
  assume eq: "strip_comments (strip_comments s) = strip_comments s"
  show "\<not> has_block (strip_comments s)"
  proof
    assume "has_block (strip_comments s)"
    from sub_block_shorter [OF this]
    have "length (re_sub_empty pattern_block (strip_comments s)) < length (strip_comments s)" .
    moreover have "length (strip_comments (strip_comments s)) \<le>
                     length (re_sub_empty pattern_block (strip_comments s))"
      using strip_line_length [of "re_sub_empty pattern_block (strip_comments s)"]
      by (simp add: strip_comments_eq [of "strip_comments s"])
    ultimately show False using eq by simp
  qed
next
  assume "\<not> has_block (strip_comments s)"
  from sub_block_id [OF this]
  have "strip_comments (strip_comments s) = strip_line (strip_comments s)"
    by (simp add: strip_comments_eq [of "strip_comments s"])
  also have "\<dots> = strip_comments s"
    unfolding strip_comments_eq [of s] by (rule strip_line_id) (rule strip_line_no_dslash)
  finally show "strip_comments (strip_comments s) = strip_comments s" .
qed

theorem C5_idempotent_iff_no_block_left_witness:
  "\<not> has_block (strip_comments ''a/*b*/c // d'') \<and>
   strip_comments (strip_comments ''a/*b*/c // d'') = strip_comments ''a/*b*/c // d'' \<and>
   strip_comments ''a/*b*/c // d'' = ''ac ''"
proof -
  have v: "strip_comments ''a/*b*/c // d'' = ''ac ''" by code_simp
  have n: "\<not> has_block (strip_comments ''a/*b*/c // d'')" unfolding v by simp
  from C5_idempotent_iff_no_block_left [of "''a/*b*/c // d''"] n v show ?thesis by simp
qed

theorem C5_counterexample:
  "strip_comments ''//**/**/'' = ''/**/'' \<and> strip_comments ''/**/'' = []"
  by code_simp

text \<open>
  An enumerator line, as the member extraction of the regex-based parser reads it: blanks,
  the enumerator, and a tail that is blank, or a comma followed by blanks, or blanks and
  \<open>=\<close> followed by the value and whatever else the line holds.
\<close>

record enum_line =
  el_indent :: string
  el_name :: string
  el_tail :: string

definition line_text :: "enum_line \<Rightarrow> string" where
  "line_text l = el_indent l @ el_name l @ el_tail l"

definition tail_ok :: "string \<Rightarrow> bool" where
  "tail_ok r =
     (case dropWhile is_space r of
        [] \<Rightarrow> True
      | x # v \<Rightarrow> x = CHR ''='' \<or> (r = CHR '','' # v \<and> list_all is_space v))"

definition line_ok :: "enum_line \<Rightarrow> bool" where
  "line_ok l = (list_all is_space (el_indent l) \<and> is_ident (el_name l) \<and> tail_ok (el_tail l))"

text \<open>
  An enum typedef without a tag: \<open>typedef\<close>, blanks, \<open>enum\<close>, blanks, the body in braces,
  blanks, the name, blanks, the semicolon. The first blanks are not empty, the body holds no
  closing brace, the name is an identifier.
\<close>

record enum_decl =
  ed_gap1 :: string
  ed_gap2 :: string
  ed_body :: string
  ed_gap3 :: string
  ed_name :: string
  ed_gap4 :: string

definition enum_text :: "enum_decl \<Rightarrow> string" where
  "enum_text d =
     ''typedef'' @ ed_gap1 d @ ''enum'' @ ed_gap2 d @ ''{'' @ ed_body d @ ''}'' @
     ed_gap3 d @ ed_name d @ ed_gap4 d @ '';''"

definition decl_ok :: "enum_decl \<Rightarrow> bool" where
  "decl_ok d =
     (ed_gap1 d \<noteq> [] \<and> list_all is_space (ed_gap1 d) \<and> list_all is_space (ed_gap2 d) \<and>
      list_all is_space (ed_gap3 d) \<and> list_all is_space (ed_gap4 d) \<and>
      CHR ''}'' \<notin> set (ed_body d) \<and> is_ident (ed_name d))"

lemma word_char_facts:
  assumes "is_word c"
  shows "\<not> is_space c" "\<not> is_linebreak c" "c \<noteq> CHR ''=''" "c \<noteq> CHR '',''"
    "c \<noteq> CHR ''}''" "c \<noteq> CHR '';''" "c \<noteq> nl"
  using assms
  by (auto simp: is_word_def is_ident_start_def is_upper_az_def is_lower_az_def is_digit09_def
      is_space_def is_linebreak_def nl_def Let_def)

lemma ident_start_word: "is_ident_start c \<Longrightarrow> is_word c"
  by (simp add: is_word_def)

lemma ident_chars: "is_ident e \<Longrightarrow> e \<noteq> [] \<and> list_all is_word e \<and> is_ident_start (hd e)"
  by (cases e) (auto simp: is_ident_def ident_start_word)

lemma split_char_nonempty: "split_char sep s \<noteq> []"
  by (induction s) (auto split: list.splits)

lemma first_field_none: "sep \<notin> set a \<Longrightarrow> first_field sep a = a"
  unfolding first_field_def
  by (induction a) (auto split: list.splits simp: split_char_nonempty)

lemma first_field_sep: "sep \<notin> set a \<Longrightarrow> first_field sep (a @ sep # b) = a"
  unfolding first_field_def
  by (induction a) (auto split: list.splits simp: split_char_nonempty)

lemma space_char_facts:
  assumes "is_space c"
  shows "c \<noteq> CHR ''=''" "c \<noteq> CHR '',''" "c \<noteq> CHR ''}''"
  using assms by (auto simp: is_space_def)

lemma ident_ends:
  assumes "is_ident e"
  shows "e \<noteq> []" "is_word (hd e)" "is_word (last e)" "list_all is_word e"
  using ident_chars [OF assms] by (auto simp: list_all_iff)

lemma member_of_line:
  assumes "line_ok l"
  shows "strip_commas (strip (first_field CHR ''='' (line_text l))) = el_name l"
proof -
  let ?i = "el_indent l" and ?e = "el_name l" and ?r = "el_tail l"
  from assms have isp: "list_all is_space ?i" and id: "is_ident ?e" and tl: "tail_ok ?r"
    by (simp_all add: line_ok_def)
  note e = ident_ends [OF id]
  have w: "\<And>c. c \<in> set ?e \<Longrightarrow> is_word c" using e(4) by (simp add: list_all_iff)
  have ne: "CHR ''='' \<notin> set ?i" "CHR ''='' \<notin> set ?e"
    using isp w word_char_facts(3) space_char_facts(1) by (auto simp: list_all_iff)
  have sp: "\<not> is_space (hd ?e)" "\<not> is_space (last ?e)"
    using e word_char_facts(1) by auto
  have cm: "\<not> lit CHR '','' (hd ?e)" "\<not> lit CHR '','' (last ?e)"
    using e word_char_facts(4) by (auto simp: lit_def)
  have core: "strip_commas ?e = ?e"
    using strip_with_core [of "lit CHR '',''" "[]" "[]" ?e] e(1) cm by (simp add: strip_commas_def)
  have st: "strip (?i @ ?e @ g) = ?e" if "list_all is_space g" for g
    using strip_with_core [of is_space ?i g ?e] isp e(1) sp that by (simp add: strip_def)
  show ?thesis
  proof (cases "dropWhile is_space ?r")
    case Nil
    then have g: "list_all is_space ?r" by (simp add: dropWhile_eq_Nil_conv list_all_iff)
    then have "CHR ''='' \<notin> set ?r" using space_char_facts(1) by (auto simp: list_all_iff)
    with ne have "CHR ''='' \<notin> set (?i @ ?e @ ?r)" by simp
    from first_field_none [OF this] have "first_field CHR ''='' (line_text l) = ?i @ ?e @ ?r"
      by (simp add: line_text_def)
    with st [OF g] core show ?thesis by simp
  next
    case (Cons x v)
    show ?thesis
    proof (cases "x = CHR ''=''")
      case True
      let ?g = "takeWhile is_space ?r"
      have g: "list_all is_space ?g" by (simp add: list_all_iff) (meson set_takeWhileD)
      then have "CHR ''='' \<notin> set ?g" using space_char_facts(1) by (auto simp: list_all_iff)
      with ne have n: "CHR ''='' \<notin> set (?i @ ?e @ ?g)" by simp
      have "?r = ?g @ CHR ''='' # v" using takeWhile_dropWhile_id [of is_space ?r] Cons True
        by simp
      then have "line_text l = (?i @ ?e @ ?g) @ CHR ''='' # v" by (simp add: line_text_def)
      with first_field_sep [OF n, of v]
      have "first_field CHR ''='' (line_text l) = ?i @ ?e @ ?g" by simp
      with st [OF g] core show ?thesis by simp
    next
      case False
      with tl Cons have r: "?r = CHR '','' # v" and g: "list_all is_space v"
        by (simp_all add: tail_ok_def)
      from g have "CHR ''='' \<notin> set v" using space_char_facts(1) by (auto simp: list_all_iff)
      with ne r have "CHR ''='' \<notin> set (?i @ ?e @ ?r)" by simp
      from first_field_none [OF this] have ff: "first_field CHR ''='' (line_text l) = ?i @ ?e @ ?r"
        by (simp add: line_text_def)
      have "strip (?i @ (?e @ '','') @ v) = ?e @ '',''"
        using strip_with_core [of is_space ?i v "?e @ '',''"] isp e(1) sp g
        by (simp add: strip_def is_space_def)
      with r ff have "strip (first_field CHR ''='' (line_text l)) = ?e @ '',''" by simp
      moreover have "strip_commas (?e @ '','') = ?e"
        using strip_with_core [of "lit CHR '',''" "[]" "'',''" ?e] e(1) cm
        by (simp add: strip_commas_def lit_def)
      ultimately show ?thesis by simp
    qed
  qed
qed

lemma enum_members_lines:
  assumes "filter (\<lambda>line. strip line \<noteq> []) (splitlines b) = map line_text ls"
    and "\<forall>l\<in>set ls. line_ok l"
  shows "enum_members b = map el_name ls"
proof -
  have m: "map (\<lambda>line. strip_commas (strip (first_field CHR ''='' line))) (map line_text ls)
             = map el_name ls"
    using assms(2) by (induction ls) (simp_all add: member_of_line)
  have f: "filter (\<lambda>x. x \<noteq> []) (map el_name ls) = map el_name ls"
    using assms(2) ident_ends(1) by (auto simp: filter_id_conv line_ok_def)
  show ?thesis unfolding enum_members_def Let_def assms(1) m f ..
qed

lemma lazy_skip:
  "\<forall>x\<in>set u. p x \<and> \<not> q x \<Longrightarrow>
     bt (Star False p # End n st # Ch q # r) i bl (u @ s) c =
     bt (Star False p # End n st # Ch q # r) (i + length u)
        (if u = [] then bl else last u = nl) s c"
proof (induction u arbitrary: i bl)
  case Nil
  show ?case by simp
next
  case (Cons x u)
  from Cons(2) have x: "p x" "\<not> q x" and u: "\<forall>x\<in>set u. p x \<and> \<not> q x" by auto
  from x have "bt (Star False p # End n st # Ch q # r) i bl ((x # u) @ s) c =
               bt (Star False p # End n st # Ch q # r) (Suc i) (x = nl) (u @ s) c"
    by simp
  also note Cons(1) [OF u, of "Suc i" "x = nl"]
  finally show ?case by simp
qed

lemma greedy_take:
  "list_all p u \<Longrightarrow>
   bt (Star True p # r) (i + length u) (if u = [] then bl else last u = nl) s c = Some m \<Longrightarrow>
   bt (Star True p # r) i bl (u @ s) c = Some m"
proof (induction u arbitrary: i bl)
  case Nil
  then show ?case by simp
next
  case (Cons x u)
  from Cons(2) have x: "p x" and u: "list_all p u" by auto
  from Cons(3) have "bt (Star True p # r) (Suc i + length u)
      (if u = [] then (x = nl) else last u = nl) s c = Some m" by (cases "u = []") simp_all
  from Cons(1) [OF u this] have "bt (Star True p # r) (Suc i) (x = nl) (u @ s) c = Some m" .
  with x show ?case by simp
qed

lemma star_stop:
  "(case s of [] \<Rightarrow> True | x # xs \<Rightarrow> \<not> p x) \<Longrightarrow> bt (Star True p # r) i bl s c = bt r i bl s c"
  by (cases s) simp_all

lemma ident_group_match:
  assumes "is_ident name" and "list_all is_space g"
  shows "bt (Grp 2 [Ch is_ident_start, Star True is_word] # [Star True is_space, Ch (lit CHR '';'')])
            i bl (name @ g @ CHR '';'' # post) c =
         Some (Suc (i + length name + length g), False, post, c(2 \<mapsto> name))"
proof -
  from assms(1) obtain x xs where n: "name = x # xs" and x: "is_ident_start x"
    and xs: "list_all is_word xs" by (cases name) (auto simp: is_ident_def)
  let ?st = "name @ g @ CHR '';'' # post"
  let ?r = "[Star True is_space, Ch (lit CHR '';'')]"
  have sem: "\<not> is_word CHR '';''" "\<not> is_space CHR '';''" "CHR '';'' \<noteq> nl"
    by (simp_all add: is_word_def is_ident_start_def is_upper_az_def is_lower_az_def
          is_digit09_def is_space_def nl_def Let_def)
  have semi: "bt ?r j blj (CHR '';'' # post) c' = Some (Suc j, False, post, c')" for j blj c'
    using sem by (simp add: lit_def)
  have sp: "bt ?r j blj (g @ CHR '';'' # post) c' = Some (Suc (j + length g), False, post, c')"
    for j blj c'
    using greedy_take [OF assms(2), of "[Ch (lit CHR '';'')]" j blj "CHR '';'' # post" c'
        "(Suc (j + length g), False, post, c')"] semi
    by simp
  have nw: "case g @ CHR '';'' # post of [] \<Rightarrow> True | y # ys \<Rightarrow> \<not> is_word y"
    using assms(2) sem(1) word_char_facts(1) by (cases g) auto
  have "bt (Star True is_word # End 2 ?st # ?r) j blj (g @ CHR '';'' # post) c =
        Some (Suc (j + length g), False, post, c(2 \<mapsto> name))" for j blj
    using star_stop [OF nw, of "End 2 ?st # ?r" j blj c] sp by simp
  from greedy_take [OF xs this]
  have "bt (Star True is_word # End 2 ?st # ?r) (Suc i) (x = nl) (xs @ g @ CHR '';'' # post) c =
        Some (Suc (Suc i + length xs + length g), False, post, c(2 \<mapsto> name))" .
  with x show ?thesis by (simp add: n)
qed

lemma typedef_tail:
  assumes "CHR ''}'' \<notin> set b" and "is_ident name"
    and "list_all is_space g3" and "list_all is_space g4"
  shows "bt (Grp 1 [Star False any_char] # Ch (lit CHR ''}'') # Star True is_space #
             Grp 2 [Ch is_ident_start, Star True is_word] # [Star True is_space, Ch (lit CHR '';'')])
            i bl (b @ CHR ''}'' # g3 @ name @ g4 @ CHR '';'' # post) c =
         Some (i + length b + length g3 + length name + length g4 + 2, False, post,
               c(1 \<mapsto> b, 2 \<mapsto> name))"
proof -
  let ?s = "CHR ''}'' # g3 @ name @ g4 @ CHR '';'' # post"
  let ?st = "b @ ?s"
  let ?id = "Grp 2 [Ch is_ident_start, Star True is_word] # [Star True is_space, Ch (lit CHR '';'')]"
  let ?tl = "Star True is_space # ?id"
  from assms(2) obtain x xs where n: "name = x # xs" and x: "is_ident_start x"
    by (cases name) (auto simp: is_ident_def)
  from x have nsp: "\<not> is_space x" using word_char_facts(1) ident_start_word by blast
  have skip: "bt (Star False any_char # End 1 ?st # Ch (lit CHR ''}'') # ?tl) i bl (b @ ?s) c =
        bt (Star False any_char # End 1 ?st # Ch (lit CHR ''}'') # ?tl) (i + length b)
           (if b = [] then bl else last b = nl) ?s c"
    using assms(1) by (intro lazy_skip) (auto simp: any_char_def lit_def)
  have id: "bt ?id j blj (name @ g4 @ CHR '';'' # post) c' =
            Some (Suc (j + length name + length g4), False, post, c'(2 \<mapsto> name))" for j blj c'
    by (rule ident_group_match [OF assms(2,4)])
  have "bt ?tl j blj (name @ g4 @ CHR '';'' # post) c' =
            Some (Suc (j + length name + length g4), False, post, c'(2 \<mapsto> name))" for j blj c'
    using nsp id [of j blj c'] by (simp add: n)
  from greedy_take [OF assms(3) this]
  have sp: "bt ?tl j blj (g3 @ name @ g4 @ CHR '';'' # post) c' =
            Some (Suc (j + length g3 + length name + length g4), False, post, c'(2 \<mapsto> name))"
    for j blj c' .
  have "bt (Star False any_char # End 1 ?st # Ch (lit CHR ''}'') # ?tl) (i + length b)
           (if b = [] then bl else last b = nl) ?s c =
        Some (i + length b + length g3 + length name + length g4 + 2, False, post,
              c(1 \<mapsto> b, 2 \<mapsto> name))"
    using sp [of "Suc (i + length b)" "CHR ''}'' = nl" "c(1 \<mapsto> b)"] by (simp add: lit_def)
  with skip show ?thesis by simp
qed

lemma enum_prefix:
  assumes "g1 \<noteq> []" and "list_all is_space g1" and "list_all is_space g2"
    and "\<And>bl'. bt (Grp 1 [Star False any_char] # Ch (lit CHR ''}'') # Star True is_space #
            Grp 2 [Ch is_ident_start, Star True is_word] # [Star True is_space, Ch (lit CHR '';'')])
           (j + length g1 + length g2 + 12) bl' s c = Some m"
  shows "bt enum_pattern j bl (''typedef'' @ g1 @ ''enum'' @ g2 @ ''{'' @ s) c = Some m"
proof -
  let ?P1 = "Grp 1 [Star False any_char] # Ch (lit CHR ''}'') # Star True is_space #
            Grp 2 [Ch is_ident_start, Star True is_word] # [Star True is_space, Ch (lit CHR '';'')]"
  let ?B = "Star True is_space # Opt [Star True is_word, Star True is_space] #
            Ch (lit CHR ''{'') # ?P1"
  let ?E = "Star True is_space # lits ''enum'' @ ?B"
  have w: "\<not> is_word CHR ''{''"
    by (simp add: is_word_def is_ident_start_def is_upper_az_def is_lower_az_def
          is_digit09_def Let_def)
  have sp: "\<not> is_space CHR ''e''" "\<not> is_space CHR ''{''"
    by (simp_all add: is_space_def)
  from assms(1,2) obtain y ys where g1: "g1 = y # ys" and y: "is_space y"
    and ys: "list_all is_space ys" by (cases g1) auto
  define p1 where "p1 = Suc (Suc (Suc (Suc (Suc (Suc (Suc j))))))"
  define p2 where "p2 = Suc p1 + length ys"
  define p3 where "p3 = Suc (Suc (Suc (Suc p2)))"
  define p4 where "p4 = p3 + length g2"
  have e: "j + length g1 + length g2 + 12 = Suc p4"
    by (simp add: p1_def p2_def p3_def p4_def g1)
  have tail: "bt ?P1 (Suc p4) bl' s c = Some m" for bl'
    using assms(4) [of bl'] unfolding e .
  have "bt ?B p4 blk (CHR ''{'' # s) c = Some m" for blk
    using tail [of "CHR ''{'' = nl"] w sp by (simp add: lit_def del: bt.simps(9))
  then have "bt ?B (p3 + length g2) blk (CHR ''{'' # s) c = Some m" for blk
    by (simp add: p4_def)
  from greedy_take [OF assms(3) this]
  have b: "bt ?B p3 blk (g2 @ CHR ''{'' # s) c = Some m" for blk .
  have "bt ?E p2 blk (''enum'' @ g2 @ CHR ''{'' # s) c = Some m" for blk
    using b [of "CHR ''m'' = nl"] sp
    by (simp add: lits_def lit_def p3_def del: bt.simps(9))
  then have "bt ?E (Suc p1 + length ys) blk (''enum'' @ g2 @ CHR ''{'' # s) c = Some m" for blk
    by (simp add: p2_def)
  from greedy_take [OF ys this]
  have "bt ?E (Suc p1) (y = nl) (ys @ ''enum'' @ g2 @ CHR ''{'' # s) c = Some m" .
  with y have "bt (Ch is_space # ?E) p1 (CHR ''f'' = nl) (g1 @ ''enum'' @ g2 @ CHR ''{'' # s) c = Some m"
    by (simp add: g1)
  then show ?thesis
    by (simp add: enum_pattern_def lits_def lit_def p1_def del: bt.simps(9))
qed

lemma enum_match:
  assumes "decl_ok d"
  shows "match_at enum_pattern j bl (enum_text d @ post) =
     Some \<lparr>m_start = j, m_end = j + length (enum_text d), m_bol = False,
           m_rest = post, m_caps = [1 \<mapsto> ed_body d, 2 \<mapsto> ed_name d]\<rparr>"
proof -
  from assms have ok: "ed_gap1 d \<noteq> []" "list_all is_space (ed_gap1 d)"
    "list_all is_space (ed_gap2 d)" "list_all is_space (ed_gap3 d)"
    "list_all is_space (ed_gap4 d)" "CHR ''}'' \<notin> set (ed_body d)" "is_ident (ed_name d)"
    by (simp_all add: decl_ok_def)
  let ?s = "ed_body d @ CHR ''}'' # ed_gap3 d @ ed_name d @ ed_gap4 d @ CHR '';'' # post"
  have tx: "enum_text d @ post = ''typedef'' @ ed_gap1 d @ ''enum'' @ ed_gap2 d @ ''{'' @ ?s"
    by (simp add: enum_text_def)
  have ln: "length (enum_text d) =
      length (ed_gap1 d) + length (ed_gap2 d) + 12 + length (ed_body d) + length (ed_gap3 d) +
      length (ed_name d) + length (ed_gap4 d) + 2"
    by (simp add: enum_text_def)
  from enum_prefix [OF ok(1,2,3), of j ?s Map.empty _ bl]
    typedef_tail [OF ok(6,7,4,5), of "j + length (ed_gap1 d) + length (ed_gap2 d) + 12" _ post Map.empty]
  have "bt enum_pattern j bl (enum_text d @ post) Map.empty =
          Some (j + length (enum_text d), False, post, [1 \<mapsto> ed_body d, 2 \<mapsto> ed_name d])"
    unfolding tx ln by (simp add: add_ac)
  then show ?thesis by (simp add: match_at_def)
qed

lemma enum_of_match_record:
  assumes "filter (\<lambda>line. strip line \<noteq> []) (splitlines b) = map line_text ls"
    and "\<forall>l\<in>set ls. line_ok l"
    and "m_caps m 1 = Some b" and "m_caps m 2 = Some name"
  shows "enum_of_match m =
           \<lparr>typedef_name = Some name, kind = ''enum'', num_members = length ls,
              members = map el_name ls,
              type_comment = type_comment_of (Some name) (length ls)\<rparr>"
  using assms(3,4) enum_members_lines [OF assms(1,2)]
  by (simp add: enum_of_match_def group_def Let_def)

lemma search_finds:
  assumes "\<And>bl'. match_at r p bl' (drop (p - i) s) = Some m0"
    and "i \<le> p" and "p \<le> i + length s"
  shows "\<exists>m. search r i bl s = Some m \<and> m_start m \<le> p \<and> (m_start m = p \<longrightarrow> m = m0)"
  using assms
proof (induction r i bl s rule: search.induct)
  case (1 r i bl)
  then have "p = i" by simp
  with 1(1) [of bl] match_at_start [of r i bl "[]" m0] show ?case by simp
next
  case (2 r i bl x xs)
  show ?case
  proof (cases "match_at r i bl (x # xs)")
    case (Some m)
    from match_at_start [OF Some] have st: "m_start m = i" .
    have "m = m0" if "i = p"
      using that 2(2) [of bl] Some by simp
    with Some st 2(3) show ?thesis by simp
  next
    case None
    have "p \<noteq> i"
    proof
      assume "p = i"
      with 2(2) [of bl] None show False by simp
    qed
    with 2(3) have le: "Suc i \<le> p" by simp
    have "\<And>bl'. match_at r p bl' (drop (p - Suc i) xs) = Some m0"
      using 2(2) drop_adv [OF le, of x xs] by simp
    from 2(1) [OF None this le] 2(4) None show ?thesis by simp
  qed
qed

lemma finditer_hits:
  assumes "\<And>bl'. match_at r p bl' (drop (p - i) s) = Some m0"
    and "i \<le> p" and "p \<le> i + length s"
    and "\<forall>m\<in>set (finditer r i bl s). m_start m < p \<longrightarrow> m_end m \<le> p"
  shows "m0 \<in> set (finditer r i bl s)"
  using assms
proof (induction r i bl s rule: finditer.induct)
  case (1 r i bl s)
  from search_finds [OF 1(3,4,5), of bl] obtain m where
    m: "search r i bl s = Some m" "m_start m \<le> p" "m_start m = p \<longrightarrow> m = m0" by blast
  note fs = finditer_Some [OF m(1)]
  note len = search_length [OF m(1)] and rest = search_rest [OF m(1)]
  show ?case
  proof (cases "m_start m = p")
    case True
    with m(3) fs show ?thesis by simp
  next
    case False
    with m(2) have lt: "m_start m < p" by simp
    from fs have "m \<in> set (finditer r i bl s)" by simp
    with 1(6) lt have ep: "m_end m \<le> p" by blast
    show ?thesis
    proof (cases "m_start m < m_end m")
      case True
      have dr: "drop (p - m_end m) (m_rest m) = drop (p - i) s"
        using ep len rest by simp
      have a: "\<And>bl'. match_at r p bl' (drop (p - m_end m) (m_rest m)) = Some m0"
        using 1(3) dr by simp
      have b: "p \<le> m_end m + length (m_rest m)" using len 1(5) by simp
      have c: "\<forall>m'\<in>set (finditer r (m_end m) (m_bol m) (m_rest m)). m_start m' < p \<longrightarrow> m_end m' \<le> p"
        using 1(6) True by (simp add: fs)
      from 1(1) [OF m(1) True a ep b c] True show ?thesis by (simp add: fs)
    next
      case F: False
      with len lt have e: "m_end m < p" by simp
      with len 1(5) have "m_rest m \<noteq> []" by auto
      then obtain x xs where xs: "m_rest m = x # xs" by (cases "m_rest m") auto
      from e have le: "Suc (m_end m) \<le> p" by simp
      have "drop (p - Suc (m_end m)) xs = drop (p - m_end m) (m_rest m)"
        using le xs by (simp add: drop_adv)
      also have "\<dots> = drop (p - i) s" using e len rest by simp
      finally have a: "\<And>bl'. match_at r p bl' (drop (p - Suc (m_end m)) xs) = Some m0"
        using 1(3) by simp
      have b: "p \<le> Suc (m_end m) + length xs" using len 1(5) xs by simp
      have c: "\<forall>m'\<in>set (finditer r (Suc (m_end m)) (x = nl) xs). m_start m' < p \<longrightarrow> m_end m' \<le> p"
        using 1(6) F xs by (simp add: fs)
      from 1(2) [OF m(1) F xs a le b c] F xs show ?thesis by (simp add: fs)
    qed
  qed
qed

text \<open>
  Claim C3, as amended. When the comment-stripped input contains an enum typedef without a
  tag whose body holds no closing brace, every non-blank line of the body is an enumerator
  line (blanks, the identifier, then only blanks, or a comma and blanks, or blanks and
  \<open>= value\<close>), and no earlier match of the enum pattern runs over the first character of
  the typedef, the parser emits a TypeRecord of kind \<open>enum\<close> whose name is the typedef's
  name and whose members are the enumerators of these lines in their order, the values
  discarded, \<open>num_members\<close> being their number.
\<close>

theorem C3_enum_one_enumerator_per_line:
  assumes "strip_comments src = pre @ enum_text d @ post"
    and "\<forall>m\<in>set (finditer enum_pattern 0 True (strip_comments src)).
           m_start m < length pre \<longrightarrow> m_end m \<le> length pre"
    and "decl_ok d"
    and "filter (\<lambda>line. strip line \<noteq> []) (splitlines (ed_body d)) = map line_text ls"
    and "\<forall>l\<in>set ls. line_ok l"
  shows "\<lparr>typedef_name = Some (ed_name d), kind = ''enum'', num_members = length ls,
            members = map el_name ls,
            type_comment = type_comment_of (Some (ed_name d)) (length ls)\<rparr>
           \<in> set (types (parse_with_regex src))"
proof -
  let ?m = "\<lparr>m_start = length pre, m_end = length pre + length (enum_text d), m_bol = False,
             m_rest = post, m_caps = [1 \<mapsto> ed_body d, 2 \<mapsto> ed_name d]\<rparr>"
  have "\<And>bl'. match_at enum_pattern (length pre) bl' (drop (length pre - 0) (strip_comments src)) = Some ?m"
    using enum_match [OF assms(3), of "length pre" _ post] assms(1) by simp
  from finditer_hits [OF this _ _ assms(2)] assms(1)
  have "?m \<in> set (finditer enum_pattern 0 True (strip_comments src))" by simp
  then have "enum_of_match ?m \<in> set (types (parse_with_regex src))"
    by (simp add: types_parse enum_records_def)
  with enum_of_match_record [OF assms(4,5), of ?m "ed_name d"] show ?thesis by simp
qed

theorem C3_enum_one_enumerator_per_line_witness:
  "\<lparr>typedef_name = Some ''Color'', kind = ''enum'', num_members = 3,
     members = [''RED'', ''GREEN'', ''BLUE''],
     type_comment = ''STRUCT & ENUM = defined with name Color and have 3 members''\<rparr>
   \<in> set (types (parse_with_regex
        (''typedef enum { OFF, ON } Sw; // switch'' @ [nl] @
         ''typedef enum'' @ [nl] @
         ''{'' @ [nl] @
         ''  RED = 1,'' @ [nl] @
         ''  GREEN,'' @ [nl] @
         ''    BLUE = 4'' @ [nl] @
         ''} Color;'' @ [nl] @ ''int x;'')))"
proof -
  let ?src = "''typedef enum { OFF, ON } Sw; // switch'' @ [nl] @
         ''typedef enum'' @ [nl] @
         ''{'' @ [nl] @
         ''  RED = 1,'' @ [nl] @
         ''  GREEN,'' @ [nl] @
         ''    BLUE = 4'' @ [nl] @
         ''} Color;'' @ [nl] @ ''int x;''"
  let ?pre = "''typedef enum { OFF, ON } Sw; '' @ [nl]"
  let ?d = "\<lparr>ed_gap1 = '' '', ed_gap2 = [nl],
             ed_body = [nl] @ ''  RED = 1,'' @ [nl] @ ''  GREEN,'' @ [nl] @ ''    BLUE = 4'' @ [nl],
             ed_gap3 = '' '', ed_name = ''Color'', ed_gap4 = []\<rparr>"
  let ?ls = "[\<lparr>el_indent = ''  '', el_name = ''RED'', el_tail = '' = 1,''\<rparr>,
              \<lparr>el_indent = ''  '', el_name = ''GREEN'', el_tail = '',''\<rparr>,
              \<lparr>el_indent = ''    '', el_name = ''BLUE'', el_tail = '' = 4''\<rparr>]"
  let ?post = "nl # ''int x;''"
  have h1: "strip_comments ?src = ?pre @ enum_text ?d @ ?post" by code_simp
  have "list_all (\<lambda>m. m_start m < length ?pre \<longrightarrow> m_end m \<le> length ?pre)
          (finditer enum_pattern 0 True (strip_comments ?src))" by code_simp
  then have h2: "\<forall>m\<in>set (finditer enum_pattern 0 True (strip_comments ?src)).
                   m_start m < length ?pre \<longrightarrow> m_end m \<le> length ?pre"
    unfolding list_all_iff .
  have h3: "decl_ok ?d" by code_simp
  have h4: "filter (\<lambda>line. strip line \<noteq> []) (splitlines (ed_body ?d)) = map line_text ?ls"
    by code_simp
  have "list_all line_ok ?ls" by code_simp
  then have h5: "\<forall>l\<in>set ?ls. line_ok l" unfolding list_all_iff .
  have tc: "type_comment_of (Some ''Color'') (length ?ls) =
              ''STRUCT & ENUM = defined with name Color and have 3 members''" by code_simp
  from C3_enum_one_enumerator_per_line [OF h1 h2 h3 h4 h5] tc show ?thesis
    by (simp add: numeral_3_eq_3)
qed

theorem C3_counterexample:
  "types (parse_with_regex ''typedef enum { A, B } E;'') =
     [\<lparr>typedef_name = Some ''E'', kind = ''enum'', num_members = 1, members = [''A, B''],
        type_comment = ''STRUCT & ENUM = defined with name E and have 1 members''\<rparr>]"
  by code_simp

end
